theory Spec2Isabelle
  imports Complex_Main
begin

unbundle bit_operations_syntax

section \<open>Transform primitives (python/utils.py)\<close>

text \<open>
  Arrays are lists. The arithmetic is exact: a numpy \<open>complex128\<close> or \<open>complex64\<close> is a
  \<open>complex\<close>, a \<open>float64\<close> is a \<open>real\<close>; rounding is not part of the model.
\<close>

text \<open>The slice \<open>x[s::2]\<close> for \<open>s\<close> in \<open>{0, 1}\<close>.\<close>

definition stride2 :: "nat \<Rightarrow> 'a list \<Rightarrow> 'a list" where
  "stride2 s x = map (\<lambda>m. x ! (s + 2 * m)) [0..<(length x + 1 - s) div 2]"

text \<open>Elementwise \<open>+\<close>, \<open>-\<close> and \<open>*\<close> of two arrays of one length.\<close>

definition vadd :: "complex list \<Rightarrow> complex list \<Rightarrow> complex list" where
  "vadd xs ys = map2 (+) xs ys"

definition vsub :: "complex list \<Rightarrow> complex list \<Rightarrow> complex list" where
  "vsub xs ys = map2 (-) xs ys"

definition vmul :: "complex list \<Rightarrow> complex list \<Rightarrow> complex list" where
  "vmul xs ys = map2 (*) xs ys"

text \<open>
  \<open>custom_fft\<close>: an array of length at most 1 is returned as it is; a length that is not a
  power of two (\<open>N & (N - 1) != 0\<close>) takes the product of the matrix
  \<open>M[k, n] = exp(-2j * pi * k * n / N)\<close> with \<open>x\<close>; otherwise the two half-size transforms
  of \<open>x[0::2]\<close> and \<open>x[1::2]\<close> are combined with the twiddle factors \<open>T\<close>.
\<close>

function custom_fft :: "complex list \<Rightarrow> complex list" where
  "custom_fft x =
     (let N = length x in
      if N \<le> 1 then x
      else if N AND (N - 1) \<noteq> 0 then
        map (\<lambda>k. \<Sum>n<N. exp (- 2 * \<i> * of_real pi * of_nat k * of_nat n / of_nat N) * x ! n)
          [0..<N]
      else
        let even = custom_fft (stride2 0 x);
            odd = custom_fft (stride2 1 x);
            T = map (\<lambda>j. exp (- 2 * \<i> * of_real pi * of_nat j / of_nat N)) [0..<N div 2]
        in vadd even (vmul T odd) @ vsub even (vmul T odd))"
  by pat_completeness auto
termination
  by (relation "measure length") (auto simp: stride2_def)

declare custom_fft.simps [simp del]

text \<open>\<open>custom_conj\<close>: \<open>x.real - 1j * x.imag\<close>.\<close>

definition custom_conj :: "complex list \<Rightarrow> complex list" where
  "custom_conj x = map (\<lambda>z. of_real (Re z) - \<i> * of_real (Im z)) x"

text \<open>\<open>custom_ifft\<close>: \<open>custom_conj(custom_fft(custom_conj(x))) / N\<close>.\<close>

definition custom_ifft :: "complex list \<Rightarrow> complex list" where
  "custom_ifft x =
     (let N = length x in map (\<lambda>z. z / of_nat N) (custom_conj (custom_fft (custom_conj x))))"

text \<open>
  The reference transforms, which are also what the library documents for \<open>np.fft.fft\<close> and
  \<open>np.fft.ifft\<close>: \<open>A[k] = sum_n a[n] * exp(-2 pi i n k / N)\<close> and
  \<open>a[n] = (1 / N) * sum_k A[k] * exp(2 pi i n k / N)\<close>.
\<close>

definition dft :: "complex list \<Rightarrow> complex list" where
  "dft x = map (\<lambda>k. \<Sum>n<length x. x ! n * cis (- (2 * pi * real k * real n / real (length x))))
     [0..<length x]"

definition idft :: "complex list \<Rightarrow> complex list" where
  "idft X = map (\<lambda>n. (\<Sum>k<length X. X ! k * cis (2 * pi * real k * real n / real (length X)))
                      / of_nat (length X)) [0..<length X]"

text \<open>
  The module-level switch: \<open>fft\<close> and \<open>ifft\<close> are the custom pair when \<open>USE_CUSTOM_FFT\<close>
  holds and the library pair otherwise.
\<close>

definition select_fft :: "bool \<Rightarrow> complex list \<Rightarrow> complex list" where
  "select_fft use_custom = (if use_custom then custom_fft else dft)"

definition select_ifft :: "bool \<Rightarrow> complex list \<Rightarrow> complex list" where
  "select_ifft use_custom = (if use_custom then custom_ifft else idft)"

definition USE_CUSTOM_FFT :: bool where
  "USE_CUSTOM_FFT = True"

definition fft :: "complex list \<Rightarrow> complex list" where
  "fft = select_fft USE_CUSTOM_FFT"

definition ifft :: "complex list \<Rightarrow> complex list" where
  "ifft = select_ifft USE_CUSTOM_FFT"

section \<open>The unitary-vector constructor\<close>

text \<open>The exceptions; an \<open>AssertionError\<close> carries the source line of its assertion.\<close>

datatype error = ValueError | AssertionError nat

text \<open>
  The random source: \<open>rand n\<close> is the array of \<open>n\<close> samples that \<open>rng.rand(n)\<close> returns,
  \<open>choice vals n\<close> the array of \<open>n\<close> picks that \<open>rng.choice(vals, n)\<close> returns. A seed
  fixes both; every outcome of a seeded generator is some such pair of functions that
  satisfies \<open>rng_ok\<close>: samples lie in the half-open interval from 0 to 1, picks are
  among the values offered (\<open>rng.choice\<close> rejects an empty offer).
\<close>

record rng =
  rand :: "nat \<Rightarrow> real list"
  choice :: "int list \<Rightarrow> nat \<Rightarrow> int list"

definition rng_ok :: "rng \<Rightarrow> bool" where
  "rng_ok r \<longleftrightarrow>
     (\<forall>n. length (rand r n) = n \<and> list_all (\<lambda>u. 0 \<le> u \<and> u < 1) (rand r n)) \<and>
     (\<forall>vals n. vals \<noteq> [] \<longrightarrow>
        length (choice r vals n) = n \<and> list_all (\<lambda>s. s \<in> set vals) (choice r vals n))"

text \<open>
  One outcome of the generator, for examples with a fixed seed: every sample is \<open>u\<close>,
  every pick is the first value offered.
\<close>

definition const_rng :: "real \<Rightarrow> rng" where
  "const_rng u =
     \<lparr>rand = (\<lambda>n. replicate n u),
      choice = (\<lambda>vals n. case vals of [] \<Rightarrow> [] | x # _ \<Rightarrow> replicate n x)\<rparr>"

text \<open>\<open>np.isclose(a, b)\<close> with the default tolerances: \<open>|a - b| <= atol + rtol * |b|\<close>.\<close>

definition isclose :: "'a::real_normed_vector \<Rightarrow> 'a \<Rightarrow> bool" where
  "isclose a b \<longleftrightarrow> norm (a - b) \<le> 1 / 10 ^ 8 + 1 / 10 ^ 5 * norm b"

text \<open>\<open>np.linalg.norm\<close> of a real vector.\<close>

definition linalg_norm :: "real list \<Rightarrow> real" where
  "linalg_norm v = sqrt (\<Sum>x\<leftarrow>v. x\<^sup>2)"

text \<open>The slice assignment \<open>xs[i : i + len(ys)] = ys\<close>.\<close>

definition set_slice :: "nat \<Rightarrow> 'a list \<Rightarrow> 'a list \<Rightarrow> 'a list" where
  "set_slice i ys xs = take i xs @ ys @ drop (i + length ys) xs"

text \<open>
  The spectrum \<open>fv\<close>: zeros, then bin 0 set to 1, then \<open>fv[1:(D + 1) // 2]\<close> set to the
  phasors, then \<open>fv[-1:D // 2:-1]\<close> (the bins \<open>D - 1\<close> down to \<open>D // 2 + 1\<close>) set to their
  conjugates, then bin \<open>D // 2\<close> set to 1 when \<open>D\<close> is even.
\<close>

definition spectrum :: "nat \<Rightarrow> real list \<Rightarrow> complex list" where
  "spectrum D phi =
     (let fv0 = replicate D 0;
          fv1 = fv0[0 := 1];
          fv2 = set_slice 1 (map (\<lambda>p. of_real (cos p) + \<i> * of_real (sin p)) phi) fv1;
          fv3 = set_slice (D div 2 + 1)
                  (rev (map cnj (take ((D + 1) div 2 - 1) (drop 1 fv2)))) fv2
      in if D mod 2 = 0 then fv3[D div 2 := 1] else fv3)"

text \<open>
  The first three lines of \<open>make_good_unitary\<close>: the samples \<open>a\<close>, the signs, and
  \<open>phi = sign * pi * (eps + a * (1 - 2 * eps))\<close>.
\<close>

definition phases :: "int \<Rightarrow> real \<Rightarrow> rng \<Rightarrow> real list" where
  "phases D eps r =
     (let a = rand r (nat ((D - 1) div 2));
          sign = choice r [- 1, 1] (length a)
      in map2 (\<lambda>s u. of_int s * pi * (eps + u * (1 - 2 * eps))) sign a)"

text \<open>
  \<open>make_good_unitary(D, eps, rng)\<close>. A negative count given to \<open>rng.rand\<close> raises
  \<open>ValueError\<close>; each of the five assertions (lines 80, 81, 90, 94 and 95 of utils.py)
  raises \<open>AssertionError\<close>.
\<close>

definition make_good_unitary :: "int \<Rightarrow> real \<Rightarrow> rng \<Rightarrow> error + real list" where
  "make_good_unitary D eps r =
     (if (D - 1) div 2 < 0 then Inl ValueError
      else
        let phi = phases D eps r
        in if \<not> list_all (\<lambda>p. \<bar>p\<bar> \<ge> pi * eps) phi then Inl (AssertionError 80)
           else if \<not> list_all (\<lambda>p. \<bar>p\<bar> \<le> pi * (1 - eps)) phi then Inl (AssertionError 81)
           else
             let fv = spectrum (nat D) phi
             in if \<not> list_all (\<lambda>z. isclose (cmod z) 1) fv then Inl (AssertionError 90)
                else
                  let v = map Re (ifft fv)
                  in if \<not> list_all2 isclose (fft (map of_real v)) fv then Inl (AssertionError 94)
                     else if \<not> isclose (linalg_norm v) 1 then Inl (AssertionError 95)
                     else Inr v)"

section \<open>The fractional power\<close>

text \<open>
  numpy's \<open>z ** e\<close> for a complex \<open>z\<close> and a real \<open>e\<close>: 1 when \<open>e\<close> is 0; for \<open>z = 0\<close>,
  0 when \<open>e\<close> is positive and NaN (here \<open>None\<close>) otherwise; else the principal power
  \<open>exp(e * log z)\<close>, that is \<open>|z| ^ e\<close> at the angle \<open>e * Arg z\<close> with \<open>Arg z\<close> in \<open>(-pi, pi]\<close>.
\<close>

definition cpow :: "complex \<Rightarrow> real \<Rightarrow> complex option" where
  "cpow z e =
     (if e = 0 then Some 1
      else if z = 0 then (if 0 < e then Some 0 else None)
      else Some (rcis (cmod z powr e) (e * Arg z)))"

text \<open>
  \<open>power_ssp\<close>. A NaN among the powered coefficients reaches every entry of the inverse
  transform: \<open>None\<close> stands for that array of NaN.
\<close>

definition power_ssp :: "real list \<Rightarrow> real \<Rightarrow> real list option" where
  "power_ssp ssp exponent =
     (let ssp_fft = fft (map of_real ssp)
      in case those (map (\<lambda>z. cpow z exponent) ssp_fft) of
           None \<Rightarrow> None
         | Some p \<Rightarrow> Some (map Re (ifft p)))"

text \<open>The copy of \<open>power_ssp\<close> in analyze_similarity.py at the top level calls the library
  transforms directly.\<close>

definition power_ssp_np :: "real list \<Rightarrow> real \<Rightarrow> real list option" where
  "power_ssp_np ssp exponent =
     (let ssp_fft = dft (map of_real ssp)
      in case those (map (\<lambda>z. cpow z exponent) ssp_fft) of
           None \<Rightarrow> None
         | Some p \<Rightarrow> Some (map Re (idft p)))"

section \<open>Notions of the specification\<close>

text \<open>The impulse vector \<open>[1, 0, ..., 0]\<close> of length \<open>D\<close>.\<close>

definition impulse :: "nat \<Rightarrow> real list" where
  "impulse D = map (\<lambda>n. if n = 0 then 1 else 0) [0..<D]"

text \<open>Circular convolution of two vectors of one length.\<close>

definition cconv :: "real list \<Rightarrow> real list \<Rightarrow> real list" where
  "cconv x y = map (\<lambda>n. \<Sum>m<length x. x ! m * y ! ((n + length x - m) mod length x))
     [0..<length x]"

text \<open>
  Conjugate symmetry of a spectrum of length \<open>N\<close>: the bin mirrored from \<open>k\<close>, which is
  bin \<open>N - k\<close> (and bin 0 for \<open>k = 0\<close>), holds the conjugate of bin \<open>k\<close>.
\<close>

definition refl_idx :: "nat \<Rightarrow> nat \<Rightarrow> nat" where
  "refl_idx N k = (N - k) mod N"

definition conj_sym :: "complex list \<Rightarrow> bool" where
  "conj_sym X \<longleftrightarrow> list_all (\<lambda>k. X ! refl_idx (length X) k = cnj (X ! k)) [0..<length X]"

text \<open>
  The real power \<open>x ^ e\<close> of a magnitude \<open>x \<ge> 0\<close>, with \<open>x ^ 0 = 1\<close> at \<open>x = 0\<close> too, as
  for the floating-point power (\<open>powr\<close> alone has \<open>0 powr 0 = 0\<close>). For \<open>x = 0\<close> and
  \<open>e < 0\<close> the power is not a number; the value here is then not used.
\<close>

definition rpow :: "real \<Rightarrow> real \<Rightarrow> real" where
  "rpow x e = (if e = 0 then 1 else x powr e)"

text \<open>
  The power of the specification: every coefficient becomes
  \<open>magnitude ^ exponent * e ^ (i * exponent * phase)\<close>, then the inverse transform and
  its real part.
\<close>

definition spec_power :: "real list \<Rightarrow> real \<Rightarrow> real list" where
  "spec_power v e =
     map Re (idft (map (\<lambda>z. of_real (rpow (cmod z) e) * cis (e * Arg z)) (dft (map of_real v))))"

section \<open>The custom transforms compute the discrete Fourier transform\<close>

lemma exp_twiddle: "exp (- 2 * \<i> * of_real pi * of_nat k * of_nat n / of_nat N) = cis (- (2 * pi * real k * real n / real N))"
  by (simp add: cis_conv_exp algebra_simps)

lemma exp_twiddle1: "exp (- 2 * \<i> * of_real pi * of_nat j / of_nat N) = cis (- (2 * pi * real j / real N))"
  by (simp add: cis_conv_exp algebra_simps)

lemma and_suc_double: "Suc (2 * k) AND 2 * k = 2 * k"
  by (subst and_rec) simp

lemma and_pred_even: 
  assumes "1 < (N::nat)" "N AND (N - 1) = 0" shows "even N"
proof (rule ccontr)
  assume "odd N"
  then obtain k where k: "N = 2 * k + 1" by (auto elim: oddE)
  with assms have "k > 0" by simp
  have "N AND (N - 1) = (2 * k + 1) AND (2 * k)" using k by simp
  also have "\<dots> = 2 * k" 
    using and_suc_double by simp
  finally show False using assms \<open>k > 0\<close> by simp
qed

lemma sum_split_even_odd:
  fixes f :: "nat \<Rightarrow> 'a::comm_monoid_add"
  shows "(\<Sum>n<2 * M. f n) = (\<Sum>m<M. f (2 * m)) + (\<Sum>m<M. f (2 * m + 1))"
  by (induction M) (simp_all add: algebra_simps)

lemma cis_minus_2pi_nat: "cis (a - 2 * pi * real m) = cis a"
proof -
  have "cis (a - 2 * pi * real m) = cis a * cis (- (2 * pi * real m))"
    by (simp add: cis_mult)
  also have "cis (- (2 * pi * real m)) = 1"
    by (metis cis_cnj cis_multiple_2pi Ints_of_nat complex_cnj_one)
  finally show ?thesis by simp
qed

lemma cis_minus_odd_pi: "cis (a - pi * real (2 * m + 1)) = - cis a"
proof -
  have "a - pi * real (2 * m + 1) = (a - pi) - 2 * pi * real m"
    by (simp add: algebra_simps)
  then show ?thesis
    by (simp only: cis_minus_2pi_nat minus_cis')
qed

lemma tw_even:
  assumes "0 < M"
  shows "cis (- (2 * pi * real k * real (2 * m) / real (2 * M))) = cis (- (2 * pi * real k * real m / real M))"
proof -
  have "- (2 * pi * real k * real (2 * m) / real (2 * M)) = - (2 * pi * real k * real m / real M)"
    using assms by (simp add: field_simps)
  then show ?thesis by (simp only:)
qed

lemma tw_odd:
  assumes "0 < M"
  shows "cis (- (2 * pi * real k * real (2 * m + 1) / real (2 * M)))
       = cis (- (2 * pi * real k / real (2 * M))) * cis (- (2 * pi * real k * real m / real M))"
proof -
  have "- (2 * pi * real k * real (2 * m + 1) / real (2 * M))
      = - (2 * pi * real k / real (2 * M)) + - (2 * pi * real k * real m / real M)"
    using assms by (simp add: field_simps)
  then show ?thesis by (simp only: cis_mult)
qed

lemma tw_even_hi:
  assumes "0 < M"
  shows "cis (- (2 * pi * real (k + M) * real (2 * m) / real (2 * M))) = cis (- (2 * pi * real k * real m / real M))"
proof -
  have "- (2 * pi * real (k + M) * real (2 * m) / real (2 * M))
      = - (2 * pi * real k * real m / real M) - 2 * pi * real m"
    using assms by (simp add: field_simps)
  then show ?thesis by (simp only: cis_minus_2pi_nat)
qed

lemma tw_odd_hi:
  assumes "0 < M"
  shows "cis (- (2 * pi * real (k + M) * real (2 * m + 1) / real (2 * M)))
       = - (cis (- (2 * pi * real k / real (2 * M))) * cis (- (2 * pi * real k * real m / real M)))"
proof -
  have "- (2 * pi * real (k + M) * real (2 * m + 1) / real (2 * M))
      = - (2 * pi * real k * real (2 * m + 1) / real (2 * M)) - pi * real (2 * m + 1)"
    using assms by (simp add: field_simps)
  then show ?thesis by (simp only: cis_minus_odd_pi tw_odd [OF assms])
qed

lemma length_dft [simp]: "length (dft x) = length x"
  by (simp add: dft_def)

lemma nth_dft: "k < length x \<Longrightarrow> dft x ! k = (\<Sum>n<length x. x ! n * cis (- (2 * pi * real k * real n / real (length x))))"
  by (simp add: dft_def)

lemma nth_stride2_0: "length x = 2 * M \<Longrightarrow> m < M \<Longrightarrow> stride2 0 x ! m = x ! (2 * m)"
  by (simp add: stride2_def)

lemma nth_stride2_1: "length x = 2 * M \<Longrightarrow> m < M \<Longrightarrow> stride2 (Suc 0) x ! m = x ! (2 * m + 1)"
  by (simp add: stride2_def)

lemma len_stride2_0: "length x = 2 * M \<Longrightarrow> length (stride2 0 x) = M"
  by (simp add: stride2_def)

lemma len_stride2_1: "length x = 2 * M \<Longrightarrow> length (stride2 (Suc 0) x) = M"
  by (simp add: stride2_def)

lemma dft_lower:
  assumes len: "length x = 2 * M" and k: "k < M"
  shows "dft x ! k = dft (stride2 0 x) ! k
           + cis (- (2 * pi * real k / real (2 * M))) * dft (stride2 (Suc 0) x) ! k"
proof -
  have M: "0 < M" using k by simp
  have "dft x ! k = (\<Sum>n<2 * M. x ! n * cis (- (2 * pi * real k * real n / real (2 * M))))"
    using len k by (simp add: nth_dft)
  also have "\<dots> = (\<Sum>m<M. x ! (2 * m) * cis (- (2 * pi * real k * real (2 * m) / real (2 * M))))
                + (\<Sum>m<M. x ! (2 * m + 1) * cis (- (2 * pi * real k * real (2 * m + 1) / real (2 * M))))"
    by (rule sum_split_even_odd)
  also have "(\<Sum>m<M. x ! (2 * m) * cis (- (2 * pi * real k * real (2 * m) / real (2 * M))))
           = dft (stride2 0 x) ! k"
    using len k by (simp only: tw_even [OF M] nth_dft len_stride2_0 [OF len]) (simp add: nth_stride2_0)
  also have "(\<Sum>m<M. x ! (2 * m + 1) * cis (- (2 * pi * real k * real (2 * m + 1) / real (2 * M))))
           = cis (- (2 * pi * real k / real (2 * M))) * dft (stride2 (Suc 0) x) ! k"
    using len k by (simp only: tw_odd [OF M] nth_dft len_stride2_1 [OF len]) 
      (simp add: nth_stride2_1 sum_distrib_left algebra_simps)
  finally show ?thesis .
qed

lemma dft_upper:
  assumes len: "length x = 2 * M" and k: "k < M"
  shows "dft x ! (k + M) = dft (stride2 0 x) ! k
           - cis (- (2 * pi * real k / real (2 * M))) * dft (stride2 (Suc 0) x) ! k"
proof -
  have M: "0 < M" using k by simp
  have "dft x ! (k + M) = (\<Sum>n<2 * M. x ! n * cis (- (2 * pi * real (k + M) * real n / real (2 * M))))"
    using len k by (simp add: nth_dft)
  also have "\<dots> = (\<Sum>m<M. x ! (2 * m) * cis (- (2 * pi * real (k + M) * real (2 * m) / real (2 * M))))
                + (\<Sum>m<M. x ! (2 * m + 1) * cis (- (2 * pi * real (k + M) * real (2 * m + 1) / real (2 * M))))"
    by (rule sum_split_even_odd)
  also have "(\<Sum>m<M. x ! (2 * m) * cis (- (2 * pi * real (k + M) * real (2 * m) / real (2 * M))))
           = dft (stride2 0 x) ! k"
    using len k by (simp only: tw_even_hi [OF M] nth_dft len_stride2_0 [OF len]) (simp add: nth_stride2_0)
  also have "(\<Sum>m<M. x ! (2 * m + 1) * cis (- (2 * pi * real (k + M) * real (2 * m + 1) / real (2 * M))))
           = - (cis (- (2 * pi * real k / real (2 * M))) * dft (stride2 (Suc 0) x) ! k)"
    using len k by (simp only: tw_odd_hi [OF M] nth_dft len_stride2_1 [OF len]) 
      (simp add: nth_stride2_1 sum_distrib_left sum_negf algebra_simps)
  finally show ?thesis by simp
qed



lemma dft_short: "length x \<le> 1 \<Longrightarrow> dft x = x"
  by (cases x) (simp_all add: dft_def)

lemma custom_fft_short: "length x \<le> 1 \<Longrightarrow> custom_fft x = x"
  by (subst custom_fft.simps) simp

lemma custom_fft_direct:
  assumes "1 < length x" "length x AND (length x - 1) \<noteq> 0"
  shows "custom_fft x = dft x"
  apply (subst custom_fft.simps)
  apply (unfold exp_twiddle dft_def)
  using assms apply (simp add: Let_def mult.commute)
  done

lemma custom_fft_rec:
  assumes "1 < length x" "length x AND (length x - 1) = 0"
  shows "custom_fft x =
     vadd (custom_fft (stride2 0 x))
          (vmul (map (\<lambda>j. cis (- (2 * pi * real j / real (length x)))) [0..<length x div 2])
                (custom_fft (stride2 (Suc 0) x)))
   @ vsub (custom_fft (stride2 0 x))
          (vmul (map (\<lambda>j. cis (- (2 * pi * real j / real (length x)))) [0..<length x div 2])
                (custom_fft (stride2 (Suc 0) x)))"
  apply (subst custom_fft.simps)
  apply (unfold exp_twiddle1)
  using assms apply (simp add: Let_def)
  done

lemma butterfly:
  assumes len: "length x = 2 * M"
  shows "vadd (dft (stride2 0 x))
              (vmul (map (\<lambda>j. cis (- (2 * pi * real j / real (2 * M)))) [0..<M])
                    (dft (stride2 (Suc 0) x)))
       @ vsub (dft (stride2 0 x))
              (vmul (map (\<lambda>j. cis (- (2 * pi * real j / real (2 * M)))) [0..<M])
                    (dft (stride2 (Suc 0) x)))
       = dft x" (is "?L = _")
proof (rule nth_equalityI)
  show ll: "length ?L = length (dft x)"
    using len by (simp add: vadd_def vsub_def vmul_def len_stride2_0 len_stride2_1)
  fix i assume "i < length ?L"
  then have i: "i < 2 * M" using ll len by simp
  show "?L ! i = dft x ! i"
  proof (cases "i < M")
    case True
    then show ?thesis
      using len by (simp add: nth_append vadd_def vsub_def vmul_def len_stride2_0 len_stride2_1
          dft_lower [OF len True])
  next
    case False
    then obtain k where k: "i = k + M" "k < M" using i
      by (metis add.commute le_add_diff_inverse less_diff_conv2 not_less mult_2)
    then show ?thesis
      using len by (simp add: nth_append vadd_def vsub_def vmul_def len_stride2_0 len_stride2_1
          dft_upper [OF len k(2)])
  qed
qed

lemma custom_fft_dft: "custom_fft x = dft x"
proof (induction x rule: custom_fft.induct)
  case (1 x)
  show ?case
  proof (cases "length x \<le> 1")
    case True
    then show ?thesis by (simp add: dft_short custom_fft_short)
  next
    case nshort: False
    show ?thesis
    proof (cases "length x AND (length x - 1) \<noteq> 0")
      case True
      then show ?thesis using nshort by (simp add: custom_fft_direct)
    next
      case False
      with nshort have "even (length x)" by (simp add: and_pred_even)
      then obtain M where M: "length x = 2 * M" by (auto elim: evenE)
      have e: "custom_fft (stride2 0 x) = dft (stride2 0 x)"
        using "1.IH"(1) [OF refl nshort False] .
      have o: "custom_fft (stride2 (Suc 0) x) = dft (stride2 (Suc 0) x)"
        using "1.IH"(2) [OF refl nshort False refl] by simp
      have "custom_fft x = vadd (dft (stride2 0 x))
              (vmul (map (\<lambda>j. cis (- (2 * pi * real j / real (2 * M)))) [0..<M])
                    (dft (stride2 (Suc 0) x)))
       @ vsub (dft (stride2 0 x))
              (vmul (map (\<lambda>j. cis (- (2 * pi * real j / real (2 * M)))) [0..<M])
                    (dft (stride2 (Suc 0) x)))"
        using nshort False by (subst custom_fft_rec) (simp_all add: e o M)
      then show ?thesis by (simp only: butterfly [OF M])
    qed
  qed
qed




lemma length_idft [simp]: "length (idft X) = length X"
  by (simp add: idft_def)

lemma nth_idft: "n < length X \<Longrightarrow> idft X ! n =
   (\<Sum>k<length X. X ! k * cis (2 * pi * real k * real n / real (length X))) / of_nat (length X)"
  by (simp add: idft_def)

lemma custom_conj_cnj: "custom_conj x = map cnj x"
  by (simp add: custom_conj_def complex_eq_iff)

lemma custom_ifft_idft: "custom_ifft x = idft x"
proof (rule nth_equalityI)
  show "length (custom_ifft x) = length (idft x)"
    by (simp add: custom_ifft_def custom_conj_cnj custom_fft_dft)
  fix n assume "n < length (custom_ifft x)"
  then have n: "n < length x"
    by (simp add: custom_ifft_def custom_conj_cnj custom_fft_dft)
  then show "custom_ifft x ! n = idft x ! n"
    by (simp add: custom_ifft_def custom_conj_cnj custom_fft_dft nth_dft nth_idft cis_cnj
        algebra_simps)
qed

subsection \<open>Sums of roots of unity\<close>

lemma cis_eq_1_iff: "cis t = 1 \<longleftrightarrow> (\<exists>m::int. t = of_int m * 2 * pi)"
proof
  assume "cis t = 1"
  then have "cos t = 1" by (simp add: complex_eq_iff)
  then show "\<exists>m::int. t = of_int m * 2 * pi" by (simp add: cos_one_2pi_int)
next
  assume "\<exists>m::int. t = of_int m * 2 * pi"
  then obtain m :: int where "t = 2 * pi * of_int m" by (auto simp: mult_ac)
  then show "cis t = 1" by simp
qed

lemma root_sum:
  assumes N: "0 < N"
  shows "(\<Sum>k<N. cis (2 * pi * real k * of_int d / real N))
       = (if int N dvd d then of_nat N else 0)"
proof -
  define w where "w = cis (2 * pi * of_int d / real N)"
  have pw: "cis (2 * pi * real k * of_int d / real N) = w ^ k" for k
    by (simp add: w_def DeMoivre algebra_simps)
  have w1: "w = 1 \<longleftrightarrow> int N dvd d"
  proof
    assume "w = 1"
    then obtain m :: int where "2 * pi * of_int d / real N = of_int m * 2 * pi"
      unfolding w_def cis_eq_1_iff by blast
    then have "of_int d = (of_int (m * int N) :: real)"
      using N by (simp add: field_simps)
    then have "d = m * int N" by (simp only: of_int_eq_iff)
    then show "int N dvd d" by simp
  next
    assume "int N dvd d"
    then obtain m where "d = int N * m" by (auto elim: dvdE)
    then have "2 * pi * of_int d / real N = of_int m * 2 * pi"
      using N by simp
    then show "w = 1" unfolding w_def cis_eq_1_iff by blast
  qed
  have wN: "w ^ N = 1"
  proof -
    have "w ^ N = cis (2 * pi * of_int d)"
      using N by (simp add: w_def DeMoivre)
    then show ?thesis by simp
  qed
  show ?thesis
  proof (cases "int N dvd d")
    case True
    then have "w = 1" using w1 by simp
    then show ?thesis using True by (simp add: pw)
  next
    case False
    then have "w \<noteq> 1" using w1 by simp
    then have "(\<Sum>k<N. w ^ k) = (w ^ N - 1) / (w - 1)"
      by (rule geometric_sum)
    then show ?thesis using False by (simp add: pw wN)
  qed
qed



lemma orth:
  assumes "a < N" "b < N"
  shows "(\<Sum>k<N. cis (2 * pi * real k * real a / real N) * cis (- (2 * pi * real k * real b / real N)))
       = (if a = b then of_nat N else 0)"
proof -
  have N: "0 < N" using assms by simp
  have "cis (2 * pi * real k * real a / real N) * cis (- (2 * pi * real k * real b / real N))
      = cis (2 * pi * real k * of_int (int a - int b) / real N)" for k
    by (simp add: cis_mult algebra_simps diff_divide_distrib)
  then have "(\<Sum>k<N. cis (2 * pi * real k * real a / real N) * cis (- (2 * pi * real k * real b / real N)))
      = (\<Sum>k<N. cis (2 * pi * real k * of_int (int a - int b) / real N))"
    by (simp only:)
  also have "\<dots> = (if int N dvd (int a - int b) then of_nat N else 0)"
    by (rule root_sum [OF N])
  also have "int N dvd (int a - int b) \<longleftrightarrow> a = b"
  proof
    assume d: "int N dvd (int a - int b)"
    have "\<bar>int a - int b\<bar> < int N" using assms by linarith
    with d have "int a - int b = 0"
      using zdvd_not_zless [of "\<bar>int a - int b\<bar>" "int N"] by (cases "int a - int b = 0") auto
    then show "a = b" by simp
  qed simp
  finally show ?thesis .
qed

lemma orth':
  assumes "a < N" "b < N"
  shows "(\<Sum>k<N. cis (- (2 * pi * real a * real k / real N)) * cis (2 * pi * real b * real k / real N))
       = (if a = b then of_nat N else 0)"
proof -
  have "(\<Sum>k<N. cis (- (2 * pi * real a * real k / real N)) * cis (2 * pi * real b * real k / real N))
      = (\<Sum>k<N. cis (2 * pi * real k * real b / real N) * cis (- (2 * pi * real k * real a / real N)))"
    by (simp add: mult_ac)
  also have "\<dots> = (if b = a then of_nat N else 0)"
    by (rule orth [OF assms(2,1)])
  finally show ?thesis by (simp add: eq_commute)
qed

lemma sum_delta_lessThan:
  fixes f :: "nat \<Rightarrow> complex"
  assumes "n < N"
  shows "(\<Sum>m<N. f m * (if m = n then c else 0)) = f n * c"
proof -
  have "(\<Sum>m<N. f m * (if m = n then c else 0)) = (\<Sum>m<N. if m = n then f m * c else 0)"
    by (rule sum.cong) simp_all
  also have "\<dots> = f n * c" using assms by (simp add: sum.delta)
  finally show ?thesis .
qed

lemma idft_dft: "idft (dft x) = x"
proof (rule nth_equalityI)
  show "length (idft (dft x)) = length x" by simp
  fix n assume "n < length (idft (dft x))"
  then have n: "n < length x" by simp
  define N where "N = length x"
  have N: "0 < N" "n < N" using n by (auto simp: N_def)
  have "(\<Sum>k<N. dft x ! k * cis (2 * pi * real k * real n / real N))
      = (\<Sum>k<N. \<Sum>m<N. x ! m * (cis (- (2 * pi * real k * real m / real N)) * cis (2 * pi * real k * real n / real N)))"
    by (simp add: nth_dft N_def sum_distrib_right mult.assoc)
  also have "\<dots> = (\<Sum>m<N. \<Sum>k<N. x ! m * (cis (- (2 * pi * real k * real m / real N)) * cis (2 * pi * real k * real n / real N)))"
    by (rule sum.swap)
  also have "\<dots> = (\<Sum>m<N. x ! m * (\<Sum>k<N. cis (2 * pi * real k * real n / real N) * cis (- (2 * pi * real k * real m / real N))))"
    by (simp add: sum_distrib_left mult.commute)
  also have "\<dots> = (\<Sum>m<N. x ! m * (if m = n then of_nat N else 0))"
    by (rule sum.cong) (simp_all add: orth N eq_commute)
  also have "\<dots> = x ! n * of_nat N"
    by (rule sum_delta_lessThan [OF N(2)])
  finally show "idft (dft x) ! n = x ! n"
    using N by (simp add: nth_idft N_def)
qed

lemma dft_idft: "dft (idft X) = X"
proof (rule nth_equalityI)
  show "length (dft (idft X)) = length X" by simp
  fix k assume "k < length (dft (idft X))"
  then have k: "k < length X" by simp
  define N where "N = length X"
  have N: "0 < N" "k < N" using k by (auto simp: N_def)
  have "(\<Sum>n<N. idft X ! n * cis (- (2 * pi * real k * real n / real N)))
      = (\<Sum>n<N. \<Sum>j<N. X ! j * (cis (2 * pi * real j * real n / real N) * cis (- (2 * pi * real k * real n / real N))) / of_nat N)"
    by (simp add: nth_idft N_def sum_distrib_right sum_divide_distrib mult.assoc)
  also have "\<dots> = (\<Sum>j<N. \<Sum>n<N. X ! j * (cis (2 * pi * real j * real n / real N) * cis (- (2 * pi * real k * real n / real N))) / of_nat N)"
    by (rule sum.swap)
  also have "\<dots> = (\<Sum>j<N. X ! j * (\<Sum>n<N. cis (- (2 * pi * real k * real n / real N)) * cis (2 * pi * real j * real n / real N))) / of_nat N"
    by (simp add: sum_distrib_left sum_divide_distrib mult.commute)
  also have "(\<Sum>j<N. X ! j * (\<Sum>n<N. cis (- (2 * pi * real k * real n / real N)) * cis (2 * pi * real j * real n / real N)))
           = (\<Sum>j<N. X ! j * (if j = k then of_nat N else 0))"
    by (rule sum.cong) (simp_all add: orth' N eq_commute)
  also have "\<dots> = X ! k * of_nat N"
    by (rule sum_delta_lessThan [OF N(2)])
  finally show "dft (idft X) ! k = X ! k"
    using N by (simp add: nth_dft N_def)
qed

subsection \<open>Energy\<close>

lemma parseval:
  "(\<Sum>k<length x. dft x ! k * cnj (dft x ! k)) = of_nat (length x) * (\<Sum>n<length x. x ! n * cnj (x ! n))"
proof (cases "length x = 0")
  case True
  then show ?thesis by simp
next
  case False
  define N where "N = length x"
  have N: "0 < N" using False by (simp add: N_def)
  define X where "X = dft x"
  have lX: "length X = N" by (simp add: X_def N_def)
  have inv: "(\<Sum>k<N. X ! k * cis (2 * pi * real k * real n / real N)) = of_nat N * x ! n"
    if "n < N" for n
  proof -
    have "idft X ! n = x ! n" by (simp add: X_def idft_dft)
    then show ?thesis using that N by (simp add: nth_idft lX field_simps)
  qed
  have "(\<Sum>k<N. X ! k * cnj (X ! k))
      = (\<Sum>k<N. \<Sum>n<N. cnj (x ! n) * (X ! k * cis (2 * pi * real k * real n / real N)))"
    by (rule sum.cong) (simp_all add: X_def nth_dft N_def sum_distrib_left cis_cnj mult_ac)
  also have "\<dots> = (\<Sum>n<N. \<Sum>k<N. cnj (x ! n) * (X ! k * cis (2 * pi * real k * real n / real N)))"
    by (rule sum.swap)
  also have "\<dots> = (\<Sum>n<N. cnj (x ! n) * (of_nat N * x ! n))"
    by (rule sum.cong) (simp_all add: sum_distrib_left [symmetric] inv)
  also have "\<dots> = of_nat N * (\<Sum>n<N. x ! n * cnj (x ! n))"
    by (simp add: sum_distrib_left mult_ac)
  finally show ?thesis by (simp add: X_def N_def)
qed

subsection \<open>Conjugate symmetry and real vectors\<close>

lemma refl_idx_less: "k < N \<Longrightarrow> refl_idx N k < N"
  by (simp add: refl_idx_def)

lemma refl_idx_invol: "k < N \<Longrightarrow> refl_idx N (refl_idx N k) = k"
  by (cases "k = 0") (simp_all add: refl_idx_def)

lemma sum_refl_idx:
  fixes g :: "nat \<Rightarrow> complex"
  shows "(\<Sum>k<N. g (refl_idx N k)) = (\<Sum>k<N. g k)"
  by (rule sum.reindex_bij_witness [of _ "refl_idx N" "refl_idx N"])
     (simp_all add: refl_idx_less refl_idx_invol)

lemma cis_refl_idx:
  assumes "k < N"
  shows "cis (2 * pi * real (refl_idx N k) * real n / real N) = cis (- (2 * pi * real k * real n / real N))"
proof (cases "k = 0")
  case True
  then show ?thesis by (simp add: refl_idx_def)
next
  case False
  then have r: "refl_idx N k = N - k" using assms by (simp add: refl_idx_def)
  have "2 * pi * real (N - k) * real n / real N
      = - (2 * pi * real k * real n / real N) + 2 * pi * real n"
    using assms by (simp add: field_simps of_nat_diff)
  then have "cis (2 * pi * real (N - k) * real n / real N)
      = cis (- (2 * pi * real k * real n / real N)) * cis (2 * pi * real n)"
    by (simp only: cis_mult)
  then show ?thesis by (simp add: r)
qed

lemma conj_sym_nth: "conj_sym X \<Longrightarrow> k < length X \<Longrightarrow> X ! refl_idx (length X) k = cnj (X ! k)"
  by (simp add: conj_sym_def list_all_iff refl_idx_def)

lemma conj_symI: "(\<And>k. k < length X \<Longrightarrow> X ! refl_idx (length X) k = cnj (X ! k)) \<Longrightarrow> conj_sym X"
  by (simp add: conj_sym_def list_all_iff refl_idx_def)

lemma idft_real:
  assumes cs: "conj_sym X" and n: "n < length X"
  shows "Im (idft X ! n) = 0"
proof -
  define N where "N = length X"
  define g where "g k = X ! k * cis (2 * pi * real k * real n / real N)" for k
  have "cnj (\<Sum>k<N. g k) = (\<Sum>k<N. cnj (X ! k) * cis (- (2 * pi * real k * real n / real N)))"
    by (simp add: g_def cis_cnj)
  also have "\<dots> = (\<Sum>k<N. g (refl_idx N k))"
    by (rule sum.cong) (simp_all add: g_def cis_refl_idx conj_sym_nth [OF cs] N_def)
  also have "\<dots> = (\<Sum>k<N. g k)" by (rule sum_refl_idx)
  finally have "cnj (idft X ! n) = idft X ! n"
    using n by (simp add: nth_idft g_def N_def)
  then show ?thesis by (simp add: complex_eq_iff)
qed

lemma cis_refl_idx':
  assumes "k < N"
  shows "cis (- (2 * pi * real (refl_idx N k) * real n / real N)) = cis (2 * pi * real k * real n / real N)"
proof -
  have "cis (- (2 * pi * real (refl_idx N k) * real n / real N))
      = cnj (cis (2 * pi * real (refl_idx N k) * real n / real N))"
    by (simp only: cis_cnj)
  also have "\<dots> = cnj (cis (- (2 * pi * real k * real n / real N)))"
    by (simp only: cis_refl_idx [OF assms])
  finally show ?thesis by (simp only: cis_cnj minus_minus)
qed

lemma dft_of_real_conj_sym: "conj_sym (dft (map of_real v))"
proof (rule conj_symI)
  fix k assume "k < length (dft (map complex_of_real v))"
  then have k: "k < length v" by simp
  define N where "N = length v"
  have kN: "k < N" using k by (simp add: N_def)
  have "dft (map of_real v) ! refl_idx N k
      = (\<Sum>n<N. of_real (v ! n) * cis (- (2 * pi * real (refl_idx N k) * real n / real N)))"
    using refl_idx_less [OF kN] by (simp add: nth_dft N_def)
  also have "\<dots> = (\<Sum>n<N. of_real (v ! n) * cis (2 * pi * real k * real n / real N))"
    by (simp only: cis_refl_idx' [OF kN])
  also have "\<dots> = cnj (dft (map of_real v) ! k)"
    using kN by (simp add: nth_dft N_def cis_cnj)
  finally show "dft (map complex_of_real v) ! refl_idx (length (dft (map complex_of_real v))) k =
         cnj (dft (map complex_of_real v) ! k)"
    by (simp add: N_def)
qed

lemma real_list_of_Im0:
  assumes "\<And>n. n < length z \<Longrightarrow> Im (z ! n) = 0"
  shows "map of_real (map Re z) = z"
  by (rule nth_equalityI) (simp_all add: assms complex_eq_iff)

lemma idft_conj_sym_real: "conj_sym X \<Longrightarrow> map of_real (map Re (idft X)) = idft X"
  by (rule real_list_of_Im0) (simp add: idft_real)

lemma dft_real_part_idft: "conj_sym X \<Longrightarrow> dft (map of_real (map Re (idft X))) = X"
  by (simp only: idft_conj_sym_real dft_idft)

subsection \<open>The power of one coefficient\<close>

lemma fft_dft: "fft x = dft x"
  by (simp add: fft_def select_fft_def custom_fft_dft)

lemma ifft_idft: "ifft x = idft x"
  by (simp add: ifft_def select_ifft_def custom_ifft_idft)

lemma those_map_Some:
  "(\<And>x. x \<in> set xs \<Longrightarrow> f x = Some (g x)) \<Longrightarrow> those (map f xs) = Some (map g xs)"
  by (induction xs) simp_all

lemma cpow_one: "cpow z 1 = Some z"
  by (simp add: cpow_def rcis_cmod_Arg)

lemma cpow_zero: "cpow z 0 = Some 1"
  by (simp add: cpow_def)

lemma power_ssp_eq:
  assumes "\<And>z. z \<in> set (dft (map of_real v)) \<Longrightarrow> cpow z e = Some (g z)"
  shows "power_ssp v e = Some (map Re (idft (map g (dft (map of_real v)))))"
  using those_map_Some [of "dft (map of_real v)" "\<lambda>z. cpow z e" g, OF assms]
  by (simp add: power_ssp_def fft_dft ifft_idft)

lemma power_ssp_np_eq:
  assumes "\<And>z. z \<in> set (dft (map of_real v)) \<Longrightarrow> cpow z e = Some (g z)"
  shows "power_ssp_np v e = Some (map Re (idft (map g (dft (map of_real v)))))"
  using those_map_Some [of "dft (map of_real v)" "\<lambda>z. cpow z e" g, OF assms]
  by (simp add: power_ssp_np_def)

lemma Re_idft_dft_of_real: "map Re (idft (dft (map of_real v))) = v"
  by (simp add: idft_dft comp_def)

lemma idft_ones:
  "map Re (idft (map (\<lambda>z. 1) (xs :: complex list))) = impulse (length xs)"
proof (rule nth_equalityI)
  show "length (map Re (idft (map (\<lambda>z. 1) xs))) = length (impulse (length xs))"
    by (simp add: impulse_def)
  fix n assume "n < length (map Re (idft (map (\<lambda>z. 1) xs)))"
  then have n: "n < length xs" by simp
  define N where "N = length xs"
  have N: "0 < N" "n < N" using n by (auto simp: N_def)
  have "(\<Sum>k<N. cis (2 * pi * real k * real n / real N)) = (if int N dvd int n then of_nat N else 0)"
    using root_sum [OF N(1), of "int n"] by simp
  also have "int N dvd int n \<longleftrightarrow> n = 0"
    using N by (auto dest: zdvd_imp_le)
  finally have "idft (map (\<lambda>z. 1) xs) ! n = (if n = 0 then 1 else 0)"
    using N by (simp add: nth_idft N_def)
  then show "map Re (idft (map (\<lambda>z. 1) xs)) ! n = impulse (length xs) ! n"
    using n by (simp add: impulse_def)
qed

subsection \<open>The constructed spectrum\<close>

lemma phasor_cis: "of_real (cos p) + \<i> * of_real (sin p) = cis p"
  by (simp add: complex_eq_iff)

lemma half_cases:
  assumes "0 < (D::nat)"
  obtains h where "D = Suc (2 * h)" | h where "D = Suc (Suc (2 * h))"
proof (cases "even D")
  case True
  then obtain m where "D = 2 * m" by (auto elim: evenE)
  with assms have "D = Suc (Suc (2 * (m - 1)))" by simp
  then show ?thesis using that by blast
next
  case False
  then obtain m where "D = Suc (2 * m)" by (auto elim: oddE)
  then show ?thesis using that by blast
qed

lemma spectrum_odd:
  assumes "length phi = h"
  shows "spectrum (Suc (2 * h)) phi = 1 # map cis phi @ rev (map (\<lambda>p. cis (- p)) phi)"
  using assms
  by (simp add: spectrum_def Let_def set_slice_def phasor_cis cis_cnj comp_def)

lemma take_drop_zeros: "take (Suc 0) (drop h (0 # replicate (2 * h) (0::complex))) = [0]"
proof -
  have "0 # replicate (2 * h) (0::complex) = replicate (Suc (2 * h)) 0" by simp
  then have "take (Suc 0) (drop h (0 # replicate (2 * h) (0::complex))) = replicate (Suc 0) 0"
    by (simp only: drop_replicate take_replicate) simp
  then show ?thesis by simp
qed

lemma spectrum_even:
  assumes "length phi = h"
  shows "spectrum (Suc (Suc (2 * h))) phi = 1 # map cis phi @ 1 # rev (map (\<lambda>p. cis (- p)) phi)"
  using assms
  by (simp add: spectrum_def Let_def set_slice_def phasor_cis cis_cnj comp_def take_drop_zeros
      list_update_append)

lemma length_spectrum:
  assumes "0 < D" "length phi = (D - 1) div 2"
  shows "length (spectrum D phi) = D"
  using assms(1)
proof (cases rule: half_cases)
  case (1 h)
  then show ?thesis using assms(2) by (simp add: spectrum_odd)
next
  case (2 h)
  then show ?thesis using assms(2) by (simp add: spectrum_even)
qed

lemma spectrum_unit:
  assumes "0 < D" "length phi = (D - 1) div 2" "z \<in> set (spectrum D phi)"
  shows "cmod z = 1"
  using assms(1)
proof (cases rule: half_cases)
  case (1 h)
  then show ?thesis using assms(2,3) by (auto simp: spectrum_odd)
next
  case (2 h)
  then show ?thesis using assms(2,3) by (auto simp: spectrum_even)
qed

lemma mirrored_nth:
  fixes A :: "complex list"
  assumes M: "M = [] \<or> M = [1]"
  defines "X \<equiv> 1 # A @ M @ rev (map cnj A)"
  defines "h \<equiv> length A"
  defines "c \<equiv> length M"
  shows "X ! 0 = 1"
    and "\<And>k. 0 < k \<Longrightarrow> k \<le> h \<Longrightarrow> X ! k = A ! (k - 1)"
    and "\<And>k. h < k \<Longrightarrow> k \<le> h + c \<Longrightarrow> X ! k = 1"
    and "\<And>k. h + c < k \<Longrightarrow> k \<le> 2 * h + c \<Longrightarrow> X ! k = cnj (A ! (2 * h + c - k))"
proof -
  show "X ! 0 = 1" by (simp add: X_def)
  show "X ! k = A ! (k - 1)" if "0 < k" "k \<le> h" for k
  proof -
    from that have "k - 1 < length A" by (simp add: h_def)
    with that show ?thesis by (simp add: X_def nth_Cons' nth_append)
  qed
  show "X ! k = 1" if "h < k" "k \<le> h + c" for k
  proof -
    from that M have "M = [1]" "k = Suc h" by (auto simp: c_def)
    then show ?thesis by (simp add: X_def h_def nth_append)
  qed
  show "X ! k = cnj (A ! (2 * h + c - k))" if "h + c < k" "k \<le> 2 * h + c" for k
  proof -
    have "X ! k = rev (map cnj A) ! (k - 1 - h - c)"
      using that by (auto simp: X_def h_def c_def nth_Cons' nth_append)
    also have "\<dots> = cnj (A ! (h - Suc (k - 1 - h - c)))"
      using that by (simp add: rev_nth h_def)
    also have "h - Suc (k - 1 - h - c) = 2 * h + c - k" using that by simp
    finally show ?thesis .
  qed
qed

lemma conj_sym_mirrored:
  fixes A :: "complex list"
  assumes M: "M = [] \<or> M = [1]"
  shows "conj_sym (1 # A @ M @ rev (map cnj A))"
proof (rule conj_symI)
  define X where "X = 1 # A @ M @ rev (map cnj A)"
  define h where "h = length A"
  define c where "c = length M"
  note nth = mirrored_nth [OF M, where A = A, folded X_def h_def c_def]
  have N: "length X = Suc (2 * h + c)" by (simp add: X_def h_def c_def)
  have c: "c \<le> 1" using M by (auto simp: c_def)
  fix k assume "k < length (1 # A @ M @ rev (map cnj A))"
  then have k: "k < Suc (2 * h + c)" using N by (simp add: X_def)
  have "X ! refl_idx (Suc (2 * h + c)) k = cnj (X ! k)"
  proof -
    consider "k = 0" | "0 < k" "k \<le> h" | "h < k" "k \<le> h + c" | "h + c < k" by linarith
    then show ?thesis
    proof cases
      case 1
      then show ?thesis by (simp add: refl_idx_def nth(1))
    next
      case 2
      then have r: "refl_idx (Suc (2 * h + c)) k = Suc (2 * h + c) - k"
        by (simp add: refl_idx_def)
      have "X ! (Suc (2 * h + c) - k) = cnj (A ! (2 * h + c - (Suc (2 * h + c) - k)))"
        using 2 by (intro nth(4)) simp_all
      also have "2 * h + c - (Suc (2 * h + c) - k) = k - 1" using 2 by simp
      finally show ?thesis using 2 by (simp add: r nth(2))
    next
      case 3
      then have "c = 1" "k = Suc h" using c by simp_all
      then have r: "refl_idx (Suc (2 * h + c)) k = k"
        by (simp add: refl_idx_def)
      show ?thesis using 3 by (simp add: r nth(3))
    next
      case 4
      then have r: "refl_idx (Suc (2 * h + c)) k = Suc (2 * h + c) - k"
        using k by (simp add: refl_idx_def)
      have "X ! (Suc (2 * h + c) - k) = A ! (Suc (2 * h + c) - k - 1)"
        using 4 k by (intro nth(2)) simp_all
      also have "Suc (2 * h + c) - k - 1 = 2 * h + c - k" by simp
      finally show ?thesis using 4 k by (simp add: r nth(4))
    qed
  qed
  then show "(1 # A @ M @ rev (map cnj A)) ! refl_idx (length (1 # A @ M @ rev (map cnj A))) k
        = cnj ((1 # A @ M @ rev (map cnj A)) ! k)"
    using N by (simp only: X_def [symmetric])
qed

lemma conj_sym_spectrum:
  assumes "0 < D" "length phi = (D - 1) div 2"
  shows "conj_sym (spectrum D phi)"
  using assms(1)
proof (cases rule: half_cases)
  case (1 h)
  have eq: "map (\<lambda>p. cis (- p)) phi = map cnj (map cis phi)"
    by (simp add: cis_cnj comp_def)
  have "spectrum D phi = 1 # map cis phi @ [] @ rev (map cnj (map cis phi))"
    using 1 assms(2) by (simp only: spectrum_odd eq) simp
  then show ?thesis by (simp only:) (rule conj_sym_mirrored, simp)
next
  case (2 h)
  have eq: "map (\<lambda>p. cis (- p)) phi = map cnj (map cis phi)"
    by (simp add: cis_cnj comp_def)
  have "spectrum D phi = 1 # map cis phi @ [1] @ rev (map cnj (map cis phi))"
    using 2 assms(2) by (simp only: spectrum_even eq) simp
  then show ?thesis by (simp only:) (rule conj_sym_mirrored, simp)
qed

subsection \<open>The norm of a vector with a unit spectrum\<close>

lemma linalg_norm_sq: "(linalg_norm v)\<^sup>2 = (\<Sum>n<length v. (v ! n)\<^sup>2)"
proof -
  have "(\<Sum>x\<leftarrow>v. x\<^sup>2) = (\<Sum>n<length v. (v ! n)\<^sup>2)"
    by (simp add: sum_list_sum_nth atLeast0LessThan)
  moreover have "0 \<le> (\<Sum>n<length v. (v ! n)\<^sup>2)" by (simp add: sum_nonneg)
  ultimately show ?thesis by (simp add: linalg_norm_def)
qed

lemma linalg_norm_nonneg: "0 \<le> linalg_norm v"
proof -
  have "0 \<le> (\<Sum>x\<leftarrow>v. x\<^sup>2)" by (rule sum_list_nonneg) auto
  then show ?thesis by (simp add: linalg_norm_def)
qed

lemma energy_of_real:
  assumes "dft (map of_real v) = X"
  shows "real (length v) * (linalg_norm v)\<^sup>2 = (\<Sum>k<length v. (cmod (X ! k))\<^sup>2)"
proof -
  define N where "N = length v"
  have "(\<Sum>k<N. X ! k * cnj (X ! k)) = of_nat N * (\<Sum>n<N. of_real (v ! n) * cnj (of_real (v ! n)))"
    using parseval [of "map of_real v"] assms by (simp add: N_def)
  also have "\<dots> = of_real (real N * (\<Sum>n<N. (v ! n)\<^sup>2))"
    by (simp add: power2_eq_square)
  finally have "of_real (real N * (\<Sum>n<N. (v ! n)\<^sup>2)) = (\<Sum>k<N. X ! k * cnj (X ! k))" 
    by simp
  also have "\<dots> = of_real (\<Sum>k<N. (cmod (X ! k))\<^sup>2)"
    by (simp add: complex_norm_square [symmetric])
  finally have "real N * (\<Sum>n<N. (v ! n)\<^sup>2) = (\<Sum>k<N. (cmod (X ! k))\<^sup>2)"
    by (simp only: of_real_eq_iff)
  then show ?thesis by (simp add: linalg_norm_sq N_def)
qed

lemma linalg_norm_unit:
  assumes X: "dft (map of_real v) = X" and unit: "\<And>z. z \<in> set X \<Longrightarrow> cmod z = 1"
    and ne: "v \<noteq> []"
  shows "linalg_norm v = 1"
proof -
  have l: "length X = length v" using X by auto
  have "(\<Sum>k<length v. (cmod (X ! k))\<^sup>2) = (\<Sum>k<length v. 1)"
    by (rule sum.cong) (simp_all add: unit l)
  then have "real (length v) * (linalg_norm v)\<^sup>2 = real (length v)"
    using energy_of_real [OF X] by simp
  then have "(linalg_norm v)\<^sup>2 = 1" using ne by simp
  then show ?thesis using linalg_norm_nonneg [of v]
    by (simp add: power2_eq_1_iff)
qed

subsection \<open>The sampled phases\<close>

lemma length_phases: "rng_ok r \<Longrightarrow> length (phases D eps r) = nat ((D - 1) div 2)"
  by (simp add: phases_def rng_ok_def Let_def)

lemma phases_elem:
  assumes "rng_ok r" "p \<in> set (phases D eps r)"
  obtains s u where "s = - 1 \<or> s = (1::int)" "0 \<le> u" "u < 1"
    "p = of_int s * pi * (eps + u * (1 - 2 * eps))"
proof -
  define a where "a = rand r (nat ((D - 1) div 2))"
  define sg where "sg = choice r [- 1, 1] (length a)"
  from assms(2) obtain s u where su: "(s, u) \<in> set (zip sg a)"
    "p = of_int s * pi * (eps + u * (1 - 2 * eps))"
    by (auto simp: phases_def Let_def a_def sg_def)
  from su(1) have "s \<in> set sg" "u \<in> set a" by (auto dest: set_zip_leftD set_zip_rightD)
  with assms(1) have "s \<in> set [- 1, 1]" "0 \<le> u" "u < 1"
    unfolding rng_ok_def a_def sg_def list_all_iff by blast+
  then have "s = - 1 \<or> s = 1" "0 \<le> u" "u < 1" by auto
  with su(2) show ?thesis using that by blast
qed

lemma phases_bounds:
  assumes "rng_ok r" "eps \<le> 1 / 2" "p \<in> set (phases D eps r)"
  shows "pi * eps \<le> \<bar>p\<bar> \<and> \<bar>p\<bar> \<le> pi * (1 - eps)"
proof -
  from assms(1,3) obtain s u where su: "s = - 1 \<or> s = (1::int)" "0 \<le> u" "u < 1"
    "p = of_int s * pi * (eps + u * (1 - 2 * eps))" by (rule phases_elem)
  define x where "x = eps + u * (1 - 2 * eps)"
  have p: "\<bar>p\<bar> = pi * \<bar>x\<bar>" using su(1,4) by (auto simp: x_def abs_mult)
  have "0 \<le> u * (1 - 2 * eps)" using su(2) assms(2) by simp
  moreover have "u * (1 - 2 * eps) \<le> 1 * (1 - 2 * eps)"
    using su(3) assms(2) by (intro mult_right_mono) simp_all
  ultimately have "eps \<le> x" "x \<le> 1 - eps" by (simp_all add: x_def)
  then have "eps \<le> \<bar>x\<bar>" "\<bar>x\<bar> \<le> 1 - eps" by linarith+
  then show ?thesis by (simp add: p)
qed

lemma phases_lt_pi:
  assumes "rng_ok r" "0 \<le> eps" "p \<in> set (phases D eps r)" "\<bar>p\<bar> \<le> pi * (1 - eps)"
  shows "\<bar>p\<bar> < pi"
proof (cases "eps = 0")
  case True
  from assms(1,3) obtain s u where su: "s = - 1 \<or> s = (1::int)" "0 \<le> u" "u < 1"
    "p = of_int s * pi * (eps + u * (1 - 2 * eps))" by (rule phases_elem)
  have "\<bar>p\<bar> = pi * u" using su(1,2,4) True by (auto simp: abs_mult)
  also have "\<dots> < pi * 1" using su(3) by (intro mult_strict_left_mono) simp_all
  finally show ?thesis by simp
next
  case False
  then have "pi * (1 - eps) < pi * 1" using assms(2) by (intro mult_strict_left_mono) simp_all
  then show ?thesis using assms(4) by linarith
qed

subsection \<open>The constructor succeeds\<close>

lemma isclose_refl: "isclose z z"
  by (simp add: isclose_def)

lemma list_all2_isclose_refl: "list_all2 isclose xs xs"
  by (simp add: list_all2_same isclose_refl)

lemma mgu_vector:
  fixes eps :: real
  assumes ok: "rng_ok r" and D: "1 \<le> D"
  defines "fv \<equiv> spectrum (nat D) (phases D eps r)"
  defines "v \<equiv> map Re (idft fv)"
  shows "length fv = nat D" and "conj_sym fv" and "\<And>z. z \<in> set fv \<Longrightarrow> cmod z = 1"
    and "dft (map of_real v) = fv" and "length v = nat D" and "linalg_norm v = 1"
proof -
  have D': "0 < nat D" using D by simp
  have l: "length (phases D eps r) = (nat D - 1) div 2"
    using D by (simp add: length_phases [OF ok] nat_div_distrib nat_diff_distrib)
  show len: "length fv = nat D" unfolding fv_def by (rule length_spectrum [OF D' l])
  show cs: "conj_sym fv" unfolding fv_def by (rule conj_sym_spectrum [OF D' l])
  show unit: "cmod z = 1" if "z \<in> set fv" for z
    using that unfolding fv_def by (rule spectrum_unit [OF D' l])
  show X: "dft (map of_real v) = fv" unfolding v_def by (rule dft_real_part_idft [OF cs])
  show lv: "length v = nat D" by (simp add: v_def len)
  have "v \<noteq> []" using lv D' by auto
  then show "linalg_norm v = 1" using linalg_norm_unit [OF X unit] by simp
qed

lemma mgu_asserts_pass:
  assumes ok: "rng_ok r" and D: "1 \<le> D"
    and a80: "list_all (\<lambda>p. \<bar>p\<bar> \<ge> pi * eps) (phases D eps r)"
    and a81: "list_all (\<lambda>p. \<bar>p\<bar> \<le> pi * (1 - eps)) (phases D eps r)"
  shows "make_good_unitary D eps r = Inr (map Re (idft (spectrum (nat D) (phases D eps r))))"
proof -
  note v = mgu_vector [OF ok D, where eps = eps]
  have a90: "list_all (\<lambda>z. isclose (cmod z) 1) (spectrum (nat D) (phases D eps r))"
    by (simp add: list_all_iff v(3) isclose_refl)
  have "\<not> (D - 1) div 2 < 0" using D by simp
  then show ?thesis
    by (simp add: make_good_unitary_def Let_def a80 a81 a90 fft_dft ifft_idft v(4) v(6)
        list_all2_isclose_refl isclose_refl del: map_map)
qed

lemma mgu_success:
  assumes ok: "rng_ok r" and D: "1 \<le> D" and eps: "eps \<le> 1 / 2"
  shows "make_good_unitary D eps r = Inr (map Re (idft (spectrum (nat D) (phases D eps r))))"
  using phases_bounds [OF ok eps]
  by (intro mgu_asserts_pass [OF ok D]) (simp_all add: list_all_iff)

lemma mgu_InrD:
  assumes ok: "rng_ok r" and res: "make_good_unitary D eps r = Inr v"
  shows "1 \<le> D" 
    and "list_all (\<lambda>p. \<bar>p\<bar> \<ge> pi * eps) (phases D eps r)"
    and "list_all (\<lambda>p. \<bar>p\<bar> \<le> pi * (1 - eps)) (phases D eps r)"
    and "v = map Re (idft (spectrum (nat D) (phases D eps r)))"
proof -
  show D: "1 \<le> D"
    using res by (cases "(D - 1) div 2 < 0") (simp_all add: make_good_unitary_def)
  then have nv: "\<not> (D - 1) div 2 < 0" by simp
  show a80: "list_all (\<lambda>p. \<bar>p\<bar> \<ge> pi * eps) (phases D eps r)"
    using res nv by (simp add: make_good_unitary_def Let_def split: if_splits)
  show a81: "list_all (\<lambda>p. \<bar>p\<bar> \<le> pi * (1 - eps)) (phases D eps r)"
    using res nv by (simp add: make_good_unitary_def Let_def split: if_splits)
  show "v = map Re (idft (spectrum (nat D) (phases D eps r)))"
    using res mgu_asserts_pass [OF ok D a80 a81] by simp
qed

subsection \<open>A fixed outcome of the generator\<close>

lemma rng_ok_const: "0 \<le> u \<Longrightarrow> u < 1 \<Longrightarrow> rng_ok (const_rng u)"
  by (auto simp: rng_ok_def const_rng_def list_all_iff split: list.splits)

lemma phases_const_3: "phases 3 eps (const_rng u) = [- pi * (eps + u * (1 - 2 * eps))]"
  by (simp add: phases_def const_rng_def)

subsection \<open>Powers of unit coefficients\<close>

lemma Arg_minus_one: "Arg (- 1) = pi"
  by (rule cis_Arg_unique) simp_all

lemma Arg_cis: "- pi < t \<Longrightarrow> t \<le> pi \<Longrightarrow> Arg (cis t) = t"
  by (rule cis_Arg_unique) simp_all

lemma Arg_one: "Arg 1 = 0"
  using Arg_cis [of 0] by simp

lemma unit_cis_Arg: "cmod z = 1 \<Longrightarrow> cis (Arg z) = z"
  using rcis_cmod_Arg [of z] by (simp add: rcis_def)

lemma Arg_eq_pi_unit:
  assumes "cmod z = 1"
  shows "Arg z = pi \<longleftrightarrow> z = - 1"
proof
  assume "Arg z = pi"
  then have "cis pi = z" using unit_cis_Arg [OF assms] by simp
  then show "z = - 1" by simp
next
  assume "z = - 1"
  then show "Arg z = pi" by (simp only: Arg_minus_one)
qed

lemma Arg_cnj_unit:
  assumes "cmod z = 1" "z \<noteq> - 1"
  shows "Arg (cnj z) = - Arg z"
proof -
  have "Arg z \<noteq> pi" using assms by (simp add: Arg_eq_pi_unit)
  then have b: "- pi < - Arg z" "- Arg z \<le> pi"
    using Arg_bounded [of z] by simp_all
  have "cnj (cis (Arg z)) = cis (- Arg z)" by (rule cis_cnj)
  then have "cnj z = cis (- Arg z)"
    by (simp only: unit_cis_Arg [OF assms(1)])
  then show ?thesis by (simp only: Arg_cis [OF b])
qed

lemma cpow_unit: "cmod z = 1 \<Longrightarrow> cpow z e = Some (cis (e * Arg z))"
  by (auto simp: cpow_def rcis_def)

lemma cis_ne_minus_one:
  assumes "\<bar>p\<bar> < pi"
  shows "cis p \<noteq> - 1"
proof
  assume "cis p = - 1"
  then have "Arg (cis p) = pi" by (simp only: Arg_minus_one)
  moreover have "Arg (cis p) = p" using assms by (intro Arg_cis) simp_all
  ultimately show False using assms by simp
qed

text \<open>A spectrum that is symmetric, of unit magnitude and without a bin at \<open>-1\<close>.\<close>

lemma conj_sym_power:
  assumes cs: "conj_sym X" and unit: "\<And>z. z \<in> set X \<Longrightarrow> cmod z = 1"
    and nm: "\<And>z. z \<in> set X \<Longrightarrow> z \<noteq> - 1"
  shows "conj_sym (map (\<lambda>z. cis (e * Arg z)) X)"
proof (rule conj_symI)
  fix k assume "k < length (map (\<lambda>z. cis (e * Arg z)) X)"
  then have k: "k < length X" by simp
  then have rk: "refl_idx (length X) k < length X" by (rule refl_idx_less)
  have m: "X ! k \<in> set X" using k by simp
  have "Arg (X ! refl_idx (length X) k) = - Arg (X ! k)"
    using conj_sym_nth [OF cs k] Arg_cnj_unit [OF unit [OF m] nm [OF m]] by simp
  then show "map (\<lambda>z. cis (e * Arg z)) X ! refl_idx (length (map (\<lambda>z. cis (e * Arg z)) X)) k
      = cnj (map (\<lambda>z. cis (e * Arg z)) X ! k)"
    using k rk by (simp add: cis_cnj)
qed

lemma those_cpow_unit:
  assumes "\<And>z. z \<in> set X \<Longrightarrow> cmod z = 1"
  shows "those (map (\<lambda>z. cpow z e) X) = Some (map (\<lambda>z. cis (e * Arg z)) X)"
  by (rule those_map_Some) (simp add: cpow_unit assms)

lemma spectrum_ne_minus_one:
  assumes "0 < D" "length phi = (D - 1) div 2" "\<And>p. p \<in> set phi \<Longrightarrow> \<bar>p\<bar> < pi"
    "z \<in> set (spectrum D phi)"
  shows "z \<noteq> - 1"
proof -
  have "z = 1 \<or> (\<exists>p\<in>set phi. z = cis p \<or> z = cis (- p))"
    using assms(1)
  proof (cases rule: half_cases)
    case (1 h)
    then show ?thesis using assms(2,4) by (auto simp: spectrum_odd)
  next
    case (2 h)
    then show ?thesis using assms(2,4) by (auto simp: spectrum_even)
  qed
  then show ?thesis
  proof
    assume "z = 1" then show ?thesis by simp
  next
    assume "\<exists>p\<in>set phi. z = cis p \<or> z = cis (- p)"
    then obtain p where p: "p \<in> set phi" "z = cis p \<or> z = cis (- p)" by blast
    have b: "\<bar>p\<bar> < pi" "\<bar>- p\<bar> < pi" using assms(3) [OF p(1)] by simp_all
    have "cis p \<noteq> - 1" "cis (- p) \<noteq> - 1"
      by (rule cis_ne_minus_one [OF b(1)], rule cis_ne_minus_one [OF b(2)])
    with p(2) show ?thesis by (elim disjE) simp_all
  qed
qed

lemma power_ssp_unit:
  assumes X: "dft (map of_real v) = X" and unit: "\<And>z. z \<in> set X \<Longrightarrow> cmod z = 1"
  shows "power_ssp v e = Some (map Re (idft (map (\<lambda>z. cis (e * Arg z)) X)))"
  using power_ssp_eq [of v e "\<lambda>z. cis (e * Arg z)"] X unit by (simp add: cpow_unit)

subsection \<open>Transforms of length 3, evaluated\<close>

lemma cis_third: "cis (2 * pi / 3) = Complex (- 1 / 2) (sqrt 3 / 2)"
  by (simp add: complex_eq_iff cos_120 sin_120)

lemma cis_two_thirds: "cis (4 * pi / 3) = Complex (- 1 / 2) (- sqrt 3 / 2)"
proof -
  have "cis (4 * pi / 3) = cis (2 * pi / 3) * cis (2 * pi / 3)"
    by (simp add: cis_mult)
  then show ?thesis by (simp add: cis_third complex_eq_iff)
qed

lemma cis_four_thirds: "cis (8 * pi / 3) = Complex (- 1 / 2) (sqrt 3 / 2)"
proof -
  have "cis (8 * pi / 3) = cis (2 * pi / 3) * cis (2 * pi)"
    by (simp only: cis_mult) simp
  then show ?thesis by (simp add: cis_third)
qed

lemma idft3:
  "idft [a, b, c] =
     [(a + b + c) / 3,
      (a + b * cis (2 * pi / 3) + c * cis (4 * pi / 3)) / 3,
      (a + b * cis (4 * pi / 3) + c * cis (8 * pi / 3)) / 3]"
  by (simp add: idft_def numeral_3_eq_3 lessThan_Suc upt_rec)

lemma spectrum_3: "spectrum 3 [p] = [1, cis p, cis (- p)]"
  using spectrum_odd [of "[p]" 1] by (simp add: numeral_3_eq_3)

lemma conj_sym_real_bins:
  assumes "conj_sym X" "X \<noteq> []"
  shows "Im (X ! 0) = 0" and "even (length X) \<Longrightarrow> Im (X ! (length X div 2)) = 0"
proof -
  have "X ! refl_idx (length X) 0 = cnj (X ! 0)"
    using assms by (intro conj_sym_nth) simp_all
  then have "X ! 0 = cnj (X ! 0)" by (simp add: refl_idx_def)
  then show "Im (X ! 0) = 0" by (metis Im_complex_of_real Reals_cnj_iff Reals_cases)
  assume e: "even (length X)"
  then obtain m where m: "length X = 2 * m" by (auto elim: evenE)
  have "0 < m" using assms(2) m by (cases "m = 0") simp_all
  then have "refl_idx (length X) m = m" by (simp add: refl_idx_def m)
  moreover have "X ! refl_idx (length X) m = cnj (X ! m)"
    using assms(1) \<open>0 < m\<close> m by (intro conj_sym_nth) simp_all
  ultimately have "X ! m = cnj (X ! m)" by simp
  then have "Im (X ! m) = 0" by (metis Im_complex_of_real Reals_cnj_iff Reals_cases)
  then show "Im (X ! (length X div 2)) = 0" by (simp add: m)
qed

subsection \<open>The constructor at \<open>D = 3\<close>, evaluated\<close>

lemma idft_1_m1_m1: "idft [1, - 1, - 1] = map of_real [- (1 / 3), 2 / 3, 2 / 3]"
  by (simp add: idft3 cis_third cis_two_thirds cis_four_thirds complex_eq_iff)

lemma cis_minus_pi: "cis (- pi) = - 1"
  by (simp add: complex_eq_iff)

lemma phases_3_minus_pi: "phases 3 (- (1 / 2)) (const_rng (3 / 4)) = [- pi]"
  by (simp add: phases_const_3)

lemma mgu_3_neg_eps:
  "make_good_unitary 3 (- (1 / 2)) (const_rng (3 / 4)) = Inr [- (1 / 3), 2 / 3, 2 / 3]"
proof -
  have ok: "rng_ok (const_rng (3 / 4))" by (simp add: rng_ok_const)
  have "make_good_unitary 3 (- (1 / 2)) (const_rng (3 / 4))
      = Inr (map Re (idft (spectrum (nat 3) (phases 3 (- (1 / 2)) (const_rng (3 / 4))))))"
  proof (rule mgu_asserts_pass [OF ok])
    have "- (pi / 2) \<le> pi" using pi_ge_zero by linarith
    then show "list_all (\<lambda>p. pi * - (1 / 2) \<le> \<bar>p\<bar>) (phases 3 (- (1 / 2)) (const_rng (3 / 4)))"
      by (simp add: phases_3_minus_pi)
    show "list_all (\<lambda>p. \<bar>p\<bar> \<le> pi * (1 - - (1 / 2))) (phases 3 (- (1 / 2)) (const_rng (3 / 4)))"
      by (simp add: phases_3_minus_pi)
  qed simp
  also have "map Re (idft (spectrum (nat 3) (phases 3 (- (1 / 2)) (const_rng (3 / 4)))))
      = [- (1 / 3), 2 / 3, 2 / 3]"
    by (simp add: phases_3_minus_pi spectrum_3 cis_minus_pi idft_1_m1_m1)
  finally show ?thesis .
qed

lemma fft_3_neg_eps: "fft (map of_real [- (1 / 3), 2 / 3, 2 / 3]) = [1, - 1, - 1]"
  by (simp only: fft_dft idft_1_m1_m1 [symmetric] dft_idft)

lemma cpow_half_minus_one: "cpow (- 1) (1 / 2) = Some \<i>"
  using cpow_unit [of "- 1" "1 / 2"] by (simp add: Arg_minus_one)

lemma cpow_one_base: "cpow 1 e = Some 1"
  using cpow_unit [of 1 e] by (simp add: Arg_one)

lemma Im_idft_1ii: "Im (ifft [1, \<i>, \<i>] ! 0) = 2 / 3"
    by (simp add: ifft_idft idft3)

lemma those_1m1m1: "those (map (\<lambda>z. cpow z (1 / 2)) [1, - 1, - 1]) = Some [1, \<i>, \<i>]"
  by (simp add: cpow_half_minus_one cpow_one_base)

lemma upt_3: "[0..<3] = [0, 1, 2]"
  by (simp add: upt_conv_Cons)

lemma not_conj_sym_1ii: "\<not> conj_sym [1, \<i>, \<i>]"
proof
  assume "conj_sym [1, \<i>, \<i>]"
  then have "[1, \<i>, \<i>] ! refl_idx (length [1, \<i>, \<i>]) 1 = cnj ([1, \<i>, \<i>] ! 1)"
    by (rule conj_sym_nth) simp
  then show False by (simp add: refl_idx_def)
qed

subsection \<open>The vector with spectrum \<open>[1, -i, i]\<close>\<close>

lemma cis_3pi_half: "cis (3 * pi / 2) = - \<i>"
proof -
  have "cis (3 * pi / 2) = cis pi * cis (pi / 2)" by (simp only: cis_mult) simp
  then show ?thesis by simp
qed

lemma cis_minus_3pi_half: "cis (- (3 * pi / 2)) = \<i>"
proof -
  have "cis (- (3 * pi / 2)) = cnj (cis (3 * pi / 2))" by (simp only: cis_cnj)
  then show ?thesis by (simp add: cis_3pi_half)
qed

lemma cos_3pi_4: "cos (3 * pi / 4) = - (sqrt 2 / 2)"
proof -
  have "cos (3 * pi / 4) = cos (pi - pi / 4)" by simp
  also have "\<dots> = - cos (pi / 4)" by (rule cos_pi_minus)
  finally show ?thesis by (simp add: cos_45)
qed

lemma idft_1_mi_i: "idft [1, - \<i>, \<i>] = map of_real [1 / 3, (1 + sqrt 3) / 3, (1 - sqrt 3) / 3]"
  by (simp add: idft3 cis_third cis_two_thirds cis_four_thirds complex_eq_iff)

lemma idft_1_i_mi: "idft [1, \<i>, - \<i>] = map of_real [1 / 3, (1 - sqrt 3) / 3, (1 + sqrt 3) / 3]"
  by (simp add: idft3 cis_third cis_two_thirds cis_four_thirds complex_eq_iff)

lemma dft_v0: "dft (map of_real [1 / 3, (1 + sqrt 3) / 3, (1 - sqrt 3) / 3]) = [1, - \<i>, \<i>]"
  by (simp only: idft_1_mi_i [symmetric] dft_idft)

lemma dft_w0: "dft (map of_real [1 / 3, (1 - sqrt 3) / 3, (1 + sqrt 3) / 3]) = [1, \<i>, - \<i>]"
  by (simp only: idft_1_i_mi [symmetric] dft_idft)

lemma phases_3_half: "phases 3 (1 / 1000) (const_rng (1 / 2)) = [- (pi / 2)]"
  by (simp add: phases_const_3)

lemma mgu_3_half:
  "make_good_unitary 3 (1 / 1000) (const_rng (1 / 2))
     = Inr [1 / 3, (1 + sqrt 3) / 3, (1 - sqrt 3) / 3]"
proof -
  have ok: "rng_ok (const_rng (1 / 2))" by (simp add: rng_ok_const)
  have "make_good_unitary 3 (1 / 1000) (const_rng (1 / 2))
      = Inr (map Re (idft (spectrum (nat 3) (phases 3 (1 / 1000) (const_rng (1 / 2))))))"
    by (rule mgu_success [OF ok]) simp_all
  also have "map Re (idft (spectrum (nat 3) (phases 3 (1 / 1000) (const_rng (1 / 2)))))
      = [1 / 3, (1 + sqrt 3) / 3, (1 - sqrt 3) / 3]"
    by (simp add: phases_3_half spectrum_3 idft_1_mi_i)
  finally show ?thesis .
qed

lemma power_ssp_3:
  assumes "dft (map of_real v) = [x, y, z]" "cmod x = 1" "cmod y = 1" "cmod z = 1"
  shows "power_ssp v e = Some (map Re (idft [cis (e * Arg x), cis (e * Arg y), cis (e * Arg z)]))"
  using power_ssp_unit [OF assms(1), of e] assms(2-4) by auto

lemma power_v0_3:
  "power_ssp [1 / 3, (1 + sqrt 3) / 3, (1 - sqrt 3) / 3] 3
     = Some [1 / 3, (1 - sqrt 3) / 3, (1 + sqrt 3) / 3]"
  by (simp add: power_ssp_3 [OF dft_v0] Arg_one cis_3pi_half cis_minus_3pi_half idft_1_i_mi)

lemma power_w0_half:
  "map_option (\<lambda>x. x ! 0) (power_ssp [1 / 3, (1 - sqrt 3) / 3, (1 + sqrt 3) / 3] (1 / 2))
     = Some ((1 + sqrt 2) / 3)"
  by (simp add: power_ssp_3 [OF dft_w0] Arg_one idft3 cos_45)

lemma power_v0_3half:
  "map_option (\<lambda>x. x ! 0) (power_ssp [1 / 3, (1 + sqrt 3) / 3, (1 - sqrt 3) / 3] (3 / 2))
     = Some ((1 - sqrt 2) / 3)"
  by (simp add: power_ssp_3 [OF dft_v0] Arg_one idft3 cos_3pi_4)

subsection \<open>Composing two powers\<close>

lemma Arg_cis_shift: "\<exists>m::int. Arg (cis t) = t + 2 * pi * of_int m"
proof -
  have "cis (Arg (cis t)) = cis t" by (rule unit_cis_Arg) simp
  then have "sin (Arg (cis t)) = sin t \<and> cos (Arg (cis t)) = cos t"
    by (simp add: complex_eq_iff)
  then show ?thesis by (simp only: sin_cos_eq_iff)
qed

lemma cis_int_mult_Arg:
  assumes "b \<in> \<int>"
  shows "cis (b * Arg (cis t)) = cis (b * t)"
proof -
  obtain m :: int where m: "Arg (cis t) = t + 2 * pi * of_int m"
    using Arg_cis_shift by blast
  from assms obtain n :: int where n: "b = of_int n" by (auto elim: Ints_cases)
  have "b * Arg (cis t) = b * t + 2 * pi * of_int (n * m)"
    by (simp add: m n algebra_simps)
  then have "cis (b * Arg (cis t)) = cis (b * t) * cis (2 * pi * of_int (n * m))"
    by (simp only: cis_mult)
  then show ?thesis by simp
qed

lemma cis_mult_Arg_small:
  assumes "\<bar>a\<bar> \<le> 1" "cmod z = 1" "z \<noteq> - 1"
  shows "cis (b * Arg (cis (a * Arg z))) = cis (b * (a * Arg z))"
proof -
  have "Arg z \<noteq> pi" using assms(2,3) by (simp add: Arg_eq_pi_unit)
  then have "\<bar>Arg z\<bar> < pi" using Arg_bounded [of z] by linarith
  moreover have "\<bar>a * Arg z\<bar> \<le> 1 * \<bar>Arg z\<bar>"
    unfolding abs_mult using assms(1) by (intro mult_right_mono) simp_all
  ultimately have "\<bar>a * Arg z\<bar> < pi" by simp
  then have "Arg (cis (a * Arg z)) = a * Arg z" by (intro Arg_cis) linarith+
  then show ?thesis by simp
qed

lemma power_compose_unit:
  assumes unit: "\<And>z. z \<in> set (dft (map of_real v)) \<Longrightarrow> cmod z = 1"
    and nm: "\<And>z. z \<in> set (dft (map of_real v)) \<Longrightarrow> z \<noteq> - 1"
    and ab: "b \<in> \<int> \<or> \<bar>a\<bar> \<le> 1"
  shows "power_ssp v a = Some (map Re (idft (map (\<lambda>z. cis (a * Arg z)) (dft (map of_real v)))))"
    and "power_ssp (map Re (idft (map (\<lambda>z. cis (a * Arg z)) (dft (map of_real v))))) b
         = power_ssp v (a * b)"
proof -
  define X where "X = dft (map of_real v)"
  define P where "P = map (\<lambda>z. cis (a * Arg z)) X"
  define w where "w = map Re (idft P)"
  show 1: "power_ssp v a = Some (map Re (idft (map (\<lambda>z. cis (a * Arg z)) (dft (map of_real v)))))"
    by (rule power_ssp_unit [OF refl unit])
  have csX: "conj_sym X" unfolding X_def by (rule dft_of_real_conj_sym)
  have csP: "conj_sym P" unfolding P_def
    by (rule conj_sym_power [OF csX]) (simp_all add: X_def unit nm)
  have dw: "dft (map of_real w) = P" unfolding w_def by (rule dft_real_part_idft [OF csP])
  have uP: "cmod z = 1" if "z \<in> set P" for z using that by (auto simp: P_def)
  have "power_ssp w b = Some (map Re (idft (map (\<lambda>z. cis (b * Arg z)) P)))"
    by (rule power_ssp_unit [OF dw uP])
  also have "map (\<lambda>z. cis (b * Arg z)) P = map (\<lambda>z. cis (a * b * Arg z)) X"
  proof -
    have "cis (b * Arg (cis (a * Arg z))) = cis (a * b * Arg z)" if "z \<in> set X" for z
    proof -
      have "cis (b * Arg (cis (a * Arg z))) = cis (b * (a * Arg z))"
        using ab
      proof
        assume "b \<in> \<int>" then show ?thesis by (rule cis_int_mult_Arg)
      next
        assume "\<bar>a\<bar> \<le> 1"
        then show ?thesis using that by (intro cis_mult_Arg_small) (simp_all add: X_def unit nm)
      qed
      then show ?thesis by (simp add: mult_ac)
    qed
    then show ?thesis by (simp add: P_def)
  qed
  also have "Some (map Re (idft (map (\<lambda>z. cis (a * b * Arg z)) X))) = power_ssp v (a * b)"
    unfolding X_def by (rule power_ssp_unit [OF refl unit, symmetric])
  finally show "power_ssp (map Re (idft (map (\<lambda>z. cis (a * Arg z)) (dft (map of_real v))))) b
         = power_ssp v (a * b)"
    by (simp only: w_def P_def X_def)
qed

lemma dft_single: "dft [x] = [x]"
  by (simp add: dft_def)

lemma idft_single: "idft [x] = [x]"
  by (simp add: idft_def)

lemma power_ssp_single_unit:
  "cmod (of_real x :: complex) = 1 \<Longrightarrow> power_ssp [x] e = Some [Re (cis (e * Arg (of_real x)))]"
  using power_ssp_unit [of "[x]" "[of_real x]" e] by (simp add: dft_single idft_single)

lemma power_m1_half: "power_ssp [- 1] (1 / 2) = Some [0]"
  using power_ssp_single_unit [of "- 1" "1 / 2"] by (simp add: Arg_minus_one)

lemma power_0_2: "power_ssp [0] 2 = Some [0]"
  using power_ssp_eq [of "[0]" 2 "\<lambda>z. 0"] by (simp add: dft_single idft_single cpow_def)

lemma sqrt2_gap: "(1 + sqrt 2) / 3 - (1 - sqrt 2) / 3 > 9 / 10"
proof -
  have "(27 / 20)\<^sup>2 < (2::real)" by (simp add: power2_eq_square)
  then have "27 / 20 < sqrt 2" by (rule real_less_rsqrt)
  then show ?thesis by (simp add: field_simps)
qed

subsection \<open>Squaring the spectrum is circular self-convolution\<close>

lemma cpow_two: "cpow z 2 = Some (z\<^sup>2)"
proof (cases "z = 0")
  case True
  then show ?thesis by (simp add: cpow_def)
next
  case False
  have "rcis (cmod z powr 2) (2 * Arg z) = (rcis (cmod z) (Arg z))\<^sup>2"
    using False by (simp add: DeMoivre2)
  then show ?thesis using False by (simp add: cpow_def rcis_cmod_Arg)
qed

lemma mod_add_lt:
  fixes j m N :: nat
  assumes "j < N" "m < N"
  shows "(j + m) mod N = (if j + m < N then j + m else j + m - N)"
proof (cases "j + m < N")
  case True
  then show ?thesis by simp
next
  case False
  then have "(j + m) mod N = (j + m - N) mod N" by (simp add: le_mod_geq)
  also have "\<dots> = j + m - N" using assms by simp
  finally show ?thesis using False by simp
qed

lemma shift_back:
  fixes n m N :: nat
  assumes "n < N" "m < N"
  shows "((n + N - m) mod N + m) mod N = n"
proof -
  have "((n + N - m) mod N + m) mod N = ((n + N - m) + m) mod N"
    by (rule mod_add_left_eq)
  also have "\<dots> = (n + N) mod N" using assms by simp
  finally show ?thesis using assms by simp
qed

lemma shift_forth:
  fixes j m N :: nat
  assumes "j < N" "m < N"
  shows "((j + m) mod N + N - m) mod N = j"
proof (cases "j + m < N")
  case True
  then have "(j + m) mod N + N - m = j + N" by simp
  then show ?thesis using assms by simp
next
  case False
  then have "(j + m) mod N + N - m = j" using assms by (simp add: mod_add_lt)
  then show ?thesis using assms by simp
qed

lemma twiddle_shift:
  assumes "j < N" "m < N"
  shows "cis (- (2 * pi * real k * real ((j + m) mod N) / real N))
       = cis (- (2 * pi * real k * real j / real N)) * cis (- (2 * pi * real k * real m / real N))"
proof (cases "j + m < N")
  case True
  then have "(j + m) mod N = j + m" by simp
  moreover have "- (2 * pi * real k * real (j + m) / real N)
      = - (2 * pi * real k * real j / real N) + - (2 * pi * real k * real m / real N)"
    by (simp add: algebra_simps add_divide_distrib)
  ultimately show ?thesis by (simp only: cis_mult)
next
  case False
  then have r: "(j + m) mod N = j + m - N" using assms by (simp add: mod_add_lt)
  have N: "0 < N" using assms by simp
  have "- (2 * pi * real k * real (j + m - N) / real N)
      = (- (2 * pi * real k * real j / real N) + - (2 * pi * real k * real m / real N))
        + 2 * pi * real k"
    using False N by (simp add: field_simps of_nat_diff)
  then have "cis (- (2 * pi * real k * real (j + m - N) / real N))
      = cis (- (2 * pi * real k * real j / real N)) * cis (- (2 * pi * real k * real m / real N))
        * cis (2 * pi * real k)"
    by (simp only: cis_mult)
  then show ?thesis by (simp add: r)
qed

lemma sum_shift:
  fixes x :: "nat \<Rightarrow> complex"
  assumes m: "m < N"
  shows "(\<Sum>n<N. x ((n + N - m) mod N) * cis (- (2 * pi * real k * real n / real N)))
       = cis (- (2 * pi * real k * real m / real N))
         * (\<Sum>j<N. x j * cis (- (2 * pi * real k * real j / real N)))"
proof -
  have "(\<Sum>n<N. x ((n + N - m) mod N) * cis (- (2 * pi * real k * real n / real N)))
      = (\<Sum>j<N. x j * cis (- (2 * pi * real k * real ((j + m) mod N) / real N)))"
    by (rule sum.reindex_bij_witness [of _ "\<lambda>j. (j + m) mod N" "\<lambda>n. (n + N - m) mod N"])
       (use m in \<open>simp_all add: shift_back shift_forth\<close>)
  also have "\<dots> = (\<Sum>j<N. cis (- (2 * pi * real k * real m / real N))
                      * (x j * cis (- (2 * pi * real k * real j / real N))))"
    by (rule sum.cong) (simp_all add: twiddle_shift m)
  finally show ?thesis by (simp add: sum_distrib_left)
qed

lemma length_cconv [simp]: "length (cconv x y) = length x"
  by (simp add: cconv_def)

lemma dft_cconv_self: "dft (map of_real (cconv v v)) = map (\<lambda>z. z\<^sup>2) (dft (map of_real v))"
proof (rule nth_equalityI)
  show "length (dft (map of_real (cconv v v))) = length (map (\<lambda>z. z\<^sup>2) (dft (map of_real v)))"
    by simp
  fix k assume "k < length (dft (map complex_of_real (cconv v v)))"
  then have k: "k < length v" by simp
  define N where "N = length v"
  define x where "x n = complex_of_real (v ! n)" for n
  define om where "om n = cis (- (2 * pi * real k * real n / real N))" for n
  define X where "X = (\<Sum>j<N. x j * om j)"
  have Xk: "dft (map of_real v) ! k = X"
    using k by (simp add: nth_dft X_def x_def om_def N_def)
  have "dft (map of_real (cconv v v)) ! k
      = (\<Sum>n<N. (\<Sum>m<N. x m * x ((n + N - m) mod N)) * om n)"
    using k by (simp add: nth_dft cconv_def x_def om_def N_def)
  also have "\<dots> = (\<Sum>n<N. \<Sum>m<N. x m * (x ((n + N - m) mod N) * om n))"
    by (simp add: sum_distrib_right mult.assoc)
  also have "\<dots> = (\<Sum>m<N. \<Sum>n<N. x m * (x ((n + N - m) mod N) * om n))"
    by (rule sum.swap)
  also have "\<dots> = (\<Sum>m<N. x m * (om m * X))"
    unfolding om_def X_def
    by (rule sum.cong) (simp_all add: sum_distrib_left [symmetric] sum_shift)
  also have "\<dots> = X * X"
    by (simp add: X_def sum_distrib_right mult_ac)
  finally show "dft (map complex_of_real (cconv v v)) ! k
      = map (\<lambda>z. z\<^sup>2) (dft (map complex_of_real v)) ! k"
    using k by (simp add: Xk power2_eq_square)
qed

lemma power_ssp_two: "power_ssp v 2 = Some (cconv v v)"
proof -
  have "power_ssp v 2 = Some (map Re (idft (map (\<lambda>z. z\<^sup>2) (dft (map of_real v)))))"
    by (rule power_ssp_eq) (rule cpow_two)
  also have "map (\<lambda>z. z\<^sup>2) (dft (map of_real v)) = dft (map of_real (cconv v v))"
    by (rule dft_cconv_self [symmetric])
  finally show ?thesis by (simp only: Re_idft_dft_of_real)
qed

lemma power_v0_2:
  "power_ssp [1 / 3, (1 + sqrt 3) / 3, (1 - sqrt 3) / 3] 2 = Some [- (1 / 3), 2 / 3, 2 / 3]"
  by (simp add: power_ssp_3 [OF dft_v0] Arg_one cis_minus_pi idft_1_m1_m1)

lemma norm_v0: "linalg_norm [1 / 3, (1 + sqrt 3) / 3, (1 - sqrt 3) / 3] = 1"
proof -
  have "(1 / 3)\<^sup>2 + (((1 + sqrt 3) / 3)\<^sup>2 + ((1 - sqrt 3) / 3)\<^sup>2) = (1::real)"
    by (simp add: power2_eq_square field_simps)
  then show ?thesis by (simp add: linalg_norm_def)
qed

lemma norm_v0_squared: "linalg_norm [- (1 / 3), 2 / 3, 2 / 3] = 1"
proof -
  have "(- (1 / 3))\<^sup>2 + ((2 / 3)\<^sup>2 + (2 / 3)\<^sup>2) = (1::real)"
    by (simp add: power2_eq_square)
  then show ?thesis by (simp add: linalg_norm_def)
qed

subsection \<open>A zero coefficient under a negative exponent\<close>

lemma those_map_None:
  "x \<in> set xs \<Longrightarrow> f x = None \<Longrightarrow> those (map f xs) = None"
  by (induction xs) (auto split: option.splits)

lemma cpow_spec_rpow:
  assumes "e < 0 \<longrightarrow> z \<noteq> 0"
  shows "cpow z e = Some (of_real (rpow (cmod z) e) * cis (e * Arg z))"
  using assms by (auto simp: cpow_def rpow_def rcis_def)

lemma cpow_zero_negative: "e < 0 \<Longrightarrow> cpow 0 e = None"
  by (simp add: cpow_def)

lemma power_ssp_nan:
  assumes "e < 0" "0 \<in> set (dft (map of_real v))"
  shows "power_ssp v e = None" and "power_ssp_np v e = None"
  using those_map_None [OF assms(2), of "\<lambda>z. cpow z e"] assms(1)
  by (simp_all add: power_ssp_def power_ssp_np_def fft_dft cpow_zero_negative)

lemma dft_pair: "dft [a, b] = [a + b, a - b]"
  by (simp add: dft_def numeral_2_eq_2 lessThan_Suc upt_rec cis_minus_pi)

section \<open>Claims\<close>

text \<open>
  C7. For every complex input \<open>x\<close>, \<open>custom_fft x\<close> is the reference discrete Fourier
  transform of \<open>x\<close> (which is what the library transform computes) and \<open>custom_ifft x\<close>
  is the reference inverse transform; whichever backend the switch selects, \<open>fft\<close> and
  \<open>ifft\<close> are the same functions.
\<close>

theorem custom_transforms_are_dft:
  "custom_fft x = dft x \<and> custom_ifft x = idft x \<and>
   select_fft b x = dft x \<and> select_ifft b x = idft x"
  by (simp add: select_fft_def select_ifft_def custom_fft_dft custom_ifft_idft)

text \<open>
  C4. For every real vector \<open>v\<close>, valid SSP vectors among them, \<open>power_ssp v 1\<close> is \<open>v\<close>:
  exact equality in exact arithmetic.
\<close>

theorem power_ssp_one: "power_ssp v 1 = Some v"
  using power_ssp_eq [of v 1 "\<lambda>z. z"] by (simp add: cpow_one Re_idft_dft_of_real)

text \<open>
  C5. For every real vector \<open>v\<close> of length \<open>D\<close>, \<open>power_ssp v 0\<close> is the impulse vector
  \<open>[1, 0, ..., 0]\<close> of length \<open>D\<close>: the exponent 0 turns every coefficient into 1.
\<close>

theorem power_ssp_zero: "power_ssp v 0 = Some (impulse (length v))"
  using power_ssp_eq [of v 0 "\<lambda>z. 1"] idft_ones [of "dft (map of_real v)"]
  by (simp add: cpow_zero)

text \<open>
  C8. For every \<open>D\<close>, every \<open>eps\<close> from 0 to 1/2 and every outcome of the generator, each
  sampled phase has its magnitude in the closed interval from \<open>eps * pi\<close> to
  \<open>(1 - eps) * pi\<close>, and neither of the two assertions on the phases (lines 80 and 81)
  fails.
\<close>

theorem phase_assertions_hold:
  assumes "rng_ok r" "0 \<le> eps" "eps \<le> 1 / 2"
  shows "list_all (\<lambda>p. pi * eps \<le> \<bar>p\<bar> \<and> \<bar>p\<bar> \<le> pi * (1 - eps)) (phases D eps r) \<and>
         make_good_unitary D eps r \<noteq> Inl (AssertionError 80) \<and>
         make_good_unitary D eps r \<noteq> Inl (AssertionError 81)"
proof -
  have b: "list_all (\<lambda>p. pi * eps \<le> \<bar>p\<bar> \<and> \<bar>p\<bar> \<le> pi * (1 - eps)) (phases D eps r)"
    using phases_bounds [OF assms(1,3)] by (simp add: list_all_iff)
  have "make_good_unitary D eps r \<noteq> Inl (AssertionError n)" for n
  proof (cases "1 \<le> D")
    case True
    then show ?thesis by (simp add: mgu_success [OF assms(1) _ assms(3)])
  next
    case False
    then show ?thesis by (simp add: make_good_unitary_def)
  qed
  with b show ?thesis by simp
qed

theorem phase_assertions_hold_witness:
  "rng_ok (const_rng (1 / 2)) \<and>
   list_all (\<lambda>p. pi * (1 / 1000) \<le> \<bar>p\<bar> \<and> \<bar>p\<bar> \<le> pi * (1 - 1 / 1000))
     (phases 8 (1 / 1000) (const_rng (1 / 2))) \<and>
   make_good_unitary 8 (1 / 1000) (const_rng (1 / 2)) \<noteq> Inl (AssertionError 80) \<and>
   make_good_unitary 8 (1 / 1000) (const_rng (1 / 2)) \<noteq> Inl (AssertionError 81)"
proof -
  have ok: "rng_ok (const_rng (1 / 2))" by (simp add: rng_ok_const)
  show ?thesis using ok phase_assertions_hold [OF ok, of "1 / 1000" 8] by simp
qed

text \<open>
  C2, as the code has it. For every \<open>D \<ge> 2\<close>, every \<open>eps \<le> 1 / 2\<close> and every outcome of the
  generator, \<open>make_good_unitary\<close> returns a real vector of length \<open>D\<close> whose Euclidean norm
  is within \<open>1e-5\<close> of 1 (it is 1 in exact arithmetic). An \<open>eps\<close> above 1/2 makes the
  assertion on line 80 fail.
\<close>

theorem make_good_unitary_length_norm:
  assumes "rng_ok r" "2 \<le> D" "eps \<le> 1 / 2"
  shows "\<exists>v. make_good_unitary D eps r = Inr v \<and> length v = nat D \<and>
             \<bar>linalg_norm v - 1\<bar> \<le> 1 / 10 ^ 5"
proof -
  have D: "1 \<le> D" using assms(2) by simp
  show ?thesis
    using mgu_success [OF assms(1) D assms(3)] mgu_vector(5,6) [OF assms(1) D, where eps = eps]
    by simp
qed

theorem make_good_unitary_length_norm_witness:
  "rng_ok (const_rng (1 / 2)) \<and>
   (\<exists>v. make_good_unitary 8 (1 / 1000) (const_rng (1 / 2)) = Inr v \<and> length v = 8 \<and>
        \<bar>linalg_norm v - 1\<bar> \<le> 1 / 10 ^ 5)"
proof -
  have ok: "rng_ok (const_rng (1 / 2))" by (simp add: rng_ok_const)
  show ?thesis using ok make_good_unitary_length_norm [OF ok, of 8 "1 / 1000"] by simp
qed

theorem make_good_unitary_any_eps_counterexample:
  "rng_ok (const_rng (1 / 2)) \<and>
   make_good_unitary 3 (3 / 4) (const_rng (1 / 2)) = Inl (AssertionError 80)"
proof -
  have "\<not> pi * 3 \<le> pi * 2" by simp
  then have "\<not> pi * 3 \<le> pi * 2 \<and> \<bar>pi\<bar> = pi" by simp
  then show ?thesis
    by (simp add: rng_ok_const make_good_unitary_def phases_const_3 abs_mult)
qed

text \<open>
  C10, as the code has it. For every vector \<open>v\<close> that \<open>make_good_unitary\<close> returns for an
  \<open>eps \<ge> 0\<close>, and every real exponent \<open>e\<close>, the powered spectrum inside \<open>power_ssp\<close> is
  conjugate-symmetric, its bin 0 (and bin \<open>D / 2\<close> for even \<open>D\<close>) is real, and its inverse
  transform is real, so taking the real part discards nothing; the inverse transform
  inside \<open>make_good_unitary\<close> is real as well, so the disabled assertion would hold.
\<close>

theorem power_spectrum_stays_symmetric:
  assumes "rng_ok r" "0 \<le> eps" "make_good_unitary D eps r = Inr v"
  shows "\<exists>p. those (map (\<lambda>z. cpow z e) (fft (map of_real v))) = Some p \<and>
             conj_sym p \<and> Im (p ! 0) = 0 \<and> (even D \<longrightarrow> Im (p ! (nat D div 2)) = 0) \<and>
             list_all (\<lambda>z. Im z = 0) (ifft p) \<and>
             list_all (\<lambda>z. Im z = 0) (ifft (spectrum (nat D) (phases D eps r)))"
proof -
  note d = mgu_InrD [OF assms(1,3)]
  define fv where "fv = spectrum (nat D) (phases D eps r)"
  note s = mgu_vector(1-4) [OF assms(1) d(1), where eps = eps, folded fv_def]
  have D': "0 < nat D" using d(1) by simp
  have l: "length (phases D eps r) = (nat D - 1) div 2"
    using d(1) by (simp add: length_phases [OF assms(1)] nat_div_distrib nat_diff_distrib)
  have lt: "\<bar>p\<bar> < pi" if "p \<in> set (phases D eps r)" for p
    using that d(3) by (intro phases_lt_pi [OF assms(1,2) that]) (simp add: list_all_iff)
  have nm: "z \<noteq> - 1" if "z \<in> set fv" for z
    using spectrum_ne_minus_one [OF D' l lt, of z] that by (simp add: fv_def)
  define p where "p = map (\<lambda>z. cis (e * Arg z)) fv"
  have F: "fft (map of_real v) = fv" using s(4) d(4) by (simp add: fft_dft fv_def)
  have 1: "those (map (\<lambda>z. cpow z e) (fft (map of_real v))) = Some p"
    unfolding F p_def by (rule those_cpow_unit) (rule s(3))
  have 2: "conj_sym p" unfolding p_def by (rule conj_sym_power [OF s(2) s(3) nm])
  have lp: "length p = nat D" by (simp add: p_def s(1))
  then have ne: "p \<noteq> []" using D' by auto
  have 3: "Im (p ! 0) = 0" by (rule conj_sym_real_bins(1) [OF 2 ne])
  have 4: "Im (p ! (nat D div 2)) = 0" if "even D"
  proof -
    have "even (length p)" using that d(1) by (simp add: lp even_nat_iff)
    then show ?thesis using conj_sym_real_bins(2) [OF 2 ne] by (simp add: lp)
  qed
  have 5: "list_all (\<lambda>z. Im z = 0) (ifft p)"
    by (simp add: ifft_idft list_all_length idft_real [OF 2])
  have 6: "list_all (\<lambda>z. Im z = 0) (ifft fv)"
    by (simp add: ifft_idft list_all_length idft_real [OF s(2)])
  show ?thesis
    unfolding fv_def [symmetric]
    by (rule exI [of _ p]) (simp add: 1 2 3 4 5 6)
qed

theorem power_spectrum_stays_symmetric_witness:
  "rng_ok (const_rng (1 / 2)) \<and>
   (\<exists>v. make_good_unitary 8 (1 / 1000) (const_rng (1 / 2)) = Inr v \<and>
     (\<exists>p. those (map (\<lambda>z. cpow z (- (5 / 2))) (fft (map of_real v))) = Some p \<and>
             conj_sym p \<and> Im (p ! 0) = 0 \<and> Im (p ! 4) = 0 \<and>
             list_all (\<lambda>z. Im z = 0) (ifft p)))"
proof -
  have ok: "rng_ok (const_rng (1 / 2))" by (simp add: rng_ok_const)
  obtain v where v: "make_good_unitary 8 (1 / 1000) (const_rng (1 / 2)) = Inr v"
    using mgu_success [OF ok, of 8 "1 / 1000"] by simp
  have e: "(0::real) \<le> 1 / 1000" by simp
  obtain p where p: "those (map (\<lambda>z. cpow z (- (5 / 2))) (fft (map of_real v))) = Some p"
     "conj_sym p" "Im (p ! 0) = 0" "even (8::int) \<longrightarrow> Im (p ! (nat 8 div 2)) = 0"
     "list_all (\<lambda>z. Im z = 0) (ifft p)"
    using power_spectrum_stays_symmetric [OF ok e v, of "- (5 / 2)"] by blast
  from p(4) have "Im (p ! 4) = 0" by simp
  with ok v p(1,2,3,5) show ?thesis by blast
qed

theorem power_spectrum_negative_eps_counterexample:
  "rng_ok (const_rng (3 / 4)) \<and>
   make_good_unitary 3 (- (1 / 2)) (const_rng (3 / 4)) = Inr [- (1 / 3), 2 / 3, 2 / 3] \<and>
   those (map (\<lambda>z. cpow z (1 / 2)) (fft (map of_real [- (1 / 3), 2 / 3, 2 / 3]))) = Some [1, \<i>, \<i>] \<and>
   \<not> conj_sym [1, \<i>, \<i>] \<and>
   Im (ifft [1, \<i>, \<i>] ! 0) = 2 / 3"
proof -
  have "rng_ok (const_rng (3 / 4))" by (simp add: rng_ok_const)
  moreover have "those (map (\<lambda>z. cpow z (1 / 2)) (fft (map of_real [- (1 / 3), 2 / 3, 2 / 3])))
      = Some [1, \<i>, \<i>]"
    by (simp only: fft_3_neg_eps those_1m1m1)
  ultimately show ?thesis
    using mgu_3_neg_eps not_conj_sym_1ii Im_idft_1ii by blast
qed

text \<open>
  C1, as the code has it. For every real vector \<open>v\<close> whose spectrum has unit magnitude
  and no bin at \<open>-1\<close> (every vector that \<open>make_good_unitary\<close> returns for \<open>eps \<ge> 0\<close> is
  one), every real \<open>a\<close> and every \<open>b\<close> that is an integer, or any real \<open>b\<close> when
  \<open>|a| \<le> 1\<close>: \<open>power_ssp (power_ssp v a) b = power_ssp v (a * b)\<close>. The power is the
  principal one, so for other exponents the inner phase \<open>a * phase\<close> is reduced into
  \<open>(-pi, pi]\<close> before it is multiplied by \<open>b\<close>, and the law fails.
\<close>

theorem power_composition:
  assumes "list_all (\<lambda>z. cmod z = 1 \<and> z \<noteq> - 1) (fft (map of_real v))"
    and "b \<in> \<int> \<or> \<bar>a\<bar> \<le> 1"
  shows "\<exists>w. power_ssp v a = Some w \<and> power_ssp w b = power_ssp v (a * b)"
proof -
  have u: "cmod z = 1" and n: "z \<noteq> - 1" if "z \<in> set (dft (map of_real v))" for z
    using assms(1) that by (simp_all add: fft_dft list_all_iff)
  show ?thesis
    using power_compose_unit [of v b a, OF u n assms(2)] by blast
qed

theorem power_composition_witness:
  "list_all (\<lambda>z. cmod z = 1 \<and> z \<noteq> - 1)
     (fft (map of_real [1 / 3, (1 + sqrt 3) / 3, (1 - sqrt 3) / 3])) \<and>
   (\<exists>w. power_ssp [1 / 3, (1 + sqrt 3) / 3, (1 - sqrt 3) / 3] 3 = Some w \<and>
        power_ssp w 2 = power_ssp [1 / 3, (1 + sqrt 3) / 3, (1 - sqrt 3) / 3] (3 * 2))"
proof -
  have h: "list_all (\<lambda>z. cmod z = 1 \<and> z \<noteq> - 1)
     (fft (map of_real [1 / 3, (1 + sqrt 3) / 3, (1 - sqrt 3) / 3]))"
    by (simp only: fft_dft dft_v0) (simp add: complex_eq_iff)
  have "(2::real) \<in> \<int> \<or> \<bar>3::real\<bar> \<le> 1" by simp
  from power_composition [OF h this] h show ?thesis by blast
qed

theorem power_composition_counterexample:
  "make_good_unitary 3 (1 / 1000) (const_rng (1 / 2))
     = Inr [1 / 3, (1 + sqrt 3) / 3, (1 - sqrt 3) / 3] \<and>
   power_ssp [1 / 3, (1 + sqrt 3) / 3, (1 - sqrt 3) / 3] 3
     = Some [1 / 3, (1 - sqrt 3) / 3, (1 + sqrt 3) / 3] \<and>
   map_option (\<lambda>x. x ! 0) (power_ssp [1 / 3, (1 - sqrt 3) / 3, (1 + sqrt 3) / 3] (1 / 2))
     = Some ((1 + sqrt 2) / 3) \<and>
   map_option (\<lambda>x. x ! 0) (power_ssp [1 / 3, (1 + sqrt 3) / 3, (1 - sqrt 3) / 3] (3 / 2))
     = Some ((1 - sqrt 2) / 3) \<and>
   (1 + sqrt 2) / 3 - (1 - sqrt 2) / 3 > 9 / 10 \<and>
   fft (map of_real [- 1]) = [- 1] \<and>
   power_ssp [- 1] (1 / 2) = Some [0] \<and>
   power_ssp [0] 2 = Some [0] \<and>
   power_ssp [- 1] 1 = Some [- 1]"
proof -
  have "fft (map of_real [- 1]) = [- 1]" by (simp add: fft_dft dft_single)
  moreover have "power_ssp [- 1] 1 = Some [- 1]"
    using power_ssp_eq [of "[- 1]" 1 "\<lambda>z. z"] by (simp add: cpow_one dft_single idft_single)
  ultimately show ?thesis
    using mgu_3_half power_v0_3 power_w0_half power_v0_3half sqrt2_gap power_m1_half power_0_2
    by blast
qed

text \<open>
  C9, as the code has it. For every vector \<open>v\<close> that \<open>make_good_unitary\<close> returns (the
  example \<open>D = 8\<close> with a fixed seed among them), \<open>power_ssp v 2\<close> is the circular
  self-convolution of \<open>v\<close>, and its Euclidean norm is exactly 1, the norm of \<open>v\<close>: the
  squared spectrum still has unit magnitude, so the energy is conserved.
\<close>

theorem power_two_is_self_convolution:
  assumes "rng_ok r" "make_good_unitary D eps r = Inr v"
  shows "power_ssp v 2 = Some (cconv v v) \<and> linalg_norm (cconv v v) = 1 \<and> linalg_norm v = 1"
proof -
  note d = mgu_InrD [OF assms]
  define fv where "fv = spectrum (nat D) (phases D eps r)"
  note s = mgu_vector [OF assms(1) d(1), where eps = eps, folded fv_def d(4)]
  have X: "dft (map of_real (cconv v v)) = map (\<lambda>z. z\<^sup>2) fv"
    by (simp only: dft_cconv_self s(4))
  have u: "cmod z = 1" if "z \<in> set (map (\<lambda>z. z\<^sup>2) fv)" for z
    using that s(3) by (auto simp: norm_power)
  have "length (cconv v v) = nat D" by (simp add: s(5))
  then have "0 < length (cconv v v)" using d(1) by simp
  then have ne: "cconv v v \<noteq> []" by (rule iffD1 [OF length_greater_0_conv])
  have "linalg_norm (cconv v v) = 1" by (rule linalg_norm_unit [OF X u ne])
  then show ?thesis by (simp add: power_ssp_two s(6))
qed

theorem power_two_is_self_convolution_witness:
  "rng_ok (const_rng (1 / 2)) \<and>
   (\<exists>v. make_good_unitary 8 (1 / 1000) (const_rng (1 / 2)) = Inr v \<and> length v = 8 \<and>
        power_ssp v 2 = Some (cconv v v) \<and> linalg_norm (cconv v v) = 1 \<and> linalg_norm v = 1)"
proof -
  have ok: "rng_ok (const_rng (1 / 2))" by (simp add: rng_ok_const)
  have v: "make_good_unitary 8 (1 / 1000) (const_rng (1 / 2))
      = Inr (map Re (idft (spectrum (nat 8) (phases 8 (1 / 1000) (const_rng (1 / 2))))))"
    by (rule mgu_success [OF ok]) simp_all
  have l: "length (map Re (idft (spectrum (nat 8) (phases 8 (1 / 1000) (const_rng (1 / 2)))))) = 8"
    using mgu_vector(5) [OF ok, of 8 "1 / 1000"] by simp
  from power_two_is_self_convolution [OF ok v] ok v l show ?thesis by blast
qed

theorem energy_not_conserved_counterexample:
  "make_good_unitary 3 (1 / 1000) (const_rng (1 / 2))
     = Inr [1 / 3, (1 + sqrt 3) / 3, (1 - sqrt 3) / 3] \<and>
   power_ssp [1 / 3, (1 + sqrt 3) / 3, (1 - sqrt 3) / 3] 2 = Some [- (1 / 3), 2 / 3, 2 / 3] \<and>
   linalg_norm [- (1 / 3), 2 / 3, 2 / 3] = 1 \<and>
   linalg_norm [1 / 3, (1 + sqrt 3) / 3, (1 - sqrt 3) / 3] = 1"
  using mgu_3_half power_v0_2 norm_v0_squared norm_v0 by blast

text \<open>
  C6, as the code has it. For every real vector \<open>v\<close> and every real exponent \<open>e\<close>,
  fractional and negative ones included, both copies of \<open>power_ssp\<close> return the real
  part of the inverse transform of the coefficients
  \<open>magnitude ^ e * exp (i * e * phase)\<close> of the transform of \<open>v\<close>, unless \<open>e\<close> is negative
  and a coefficient of the transform is zero: then there is no validation, the power
  of that coefficient is NaN, and the result is NaN in every entry.
\<close>

theorem power_ssp_refines_spec:
  "power_ssp v e =
     (if e < 0 \<and> 0 \<in> set (dft (map of_real v)) then None else Some (spec_power v e)) \<and>
   power_ssp_np v e =
     (if e < 0 \<and> 0 \<in> set (dft (map of_real v)) then None else Some (spec_power v e))"
proof (cases "e < 0 \<and> 0 \<in> set (dft (map of_real v))")
  case True
  then show ?thesis by (simp add: power_ssp_nan)
next
  case False
  have c: "cpow z e = Some (of_real (rpow (cmod z) e) * cis (e * Arg z))"
    if "z \<in> set (dft (map of_real v))" for z
    using that False by (intro cpow_spec_rpow) auto
  show ?thesis
    using False power_ssp_eq [OF c] power_ssp_np_eq [OF c] by (simp add: spec_power_def)
qed

theorem power_ssp_refines_spec_witness:
  "dft (map of_real [1 / 3, (1 + sqrt 3) / 3, (1 - sqrt 3) / 3]) = [1, - \<i>, \<i>] \<and>
   power_ssp [1 / 3, (1 + sqrt 3) / 3, (1 - sqrt 3) / 3] (- (1 / 2))
     = Some (spec_power [1 / 3, (1 + sqrt 3) / 3, (1 - sqrt 3) / 3] (- (1 / 2))) \<and>
   power_ssp_np [1 / 3, (1 + sqrt 3) / 3, (1 - sqrt 3) / 3] (- (1 / 2))
     = Some (spec_power [1 / 3, (1 + sqrt 3) / 3, (1 - sqrt 3) / 3] (- (1 / 2))) \<and>
   map_option (\<lambda>x. x ! 0) (power_ssp [1 / 3, (1 + sqrt 3) / 3, (1 - sqrt 3) / 3] (- (1 / 2)))
     = Some ((1 + sqrt 2) / 3)"
proof -
  have n: "0 \<notin> set (dft (map of_real [1 / 3, (1 + sqrt 3) / 3, (1 - sqrt 3) / 3]))"
    by (simp only: dft_v0) simp
  have "map_option (\<lambda>x. x ! 0) (power_ssp [1 / 3, (1 + sqrt 3) / 3, (1 - sqrt 3) / 3] (- (1 / 2)))
     = Some ((1 + sqrt 2) / 3)"
    by (simp add: power_ssp_3 [OF dft_v0] Arg_one idft3 cos_45)
  then show ?thesis
    using power_ssp_refines_spec [of "[1 / 3, (1 + sqrt 3) / 3, (1 - sqrt 3) / 3]" "- (1 / 2)"]
      n dft_v0 by simp
qed

theorem power_ssp_nan_counterexample:
  "fft (map of_real [1, 1]) = [2, 0] \<and>
   cpow 0 (- 1) = None \<and>
   power_ssp [1, 1] (- 1) = None \<and>
   power_ssp_np [1, 1] (- 1) = None"
proof -
  have d: "dft (map of_real [1, 1]) = [2, 0]" by (simp add: dft_pair)
  have z: "0 \<in> set (dft (map of_real [1, 1 :: real]))" by (simp only: d) simp
  have e: "(- 1 :: real) < 0" by simp
  show ?thesis
    using d power_ssp_nan [OF e z] by (simp add: fft_dft cpow_zero_negative)
qed

text \<open>
  C3. For every \<open>D \<ge> 1\<close> (a smaller \<open>D\<close> raises \<open>ValueError\<close>) and every outcome of the
  generator, \<open>make_good_unitary\<close>, with the default \<open>eps\<close> or any other \<open>eps \<le> 1 / 2\<close>,
  returns a vector of length \<open>D\<close> whose discrete Fourier transform has \<open>D\<close> bins, each of
  magnitude within \<open>1e-5\<close> of 1 (the magnitude is 1 in exact arithmetic).
\<close>

theorem make_good_unitary_unit_spectrum:
  assumes "rng_ok r" "1 \<le> D" "eps \<le> 1 / 2"
  shows "\<exists>v. make_good_unitary D eps r = Inr v \<and> length v = nat D \<and>
             length (dft (map of_real v)) = nat D \<and>
             list_all (\<lambda>z. \<bar>cmod z - 1\<bar> \<le> 1 / 10 ^ 5) (dft (map of_real v))"
proof -
  define v where "v = map Re (idft (spectrum (nat D) (phases D eps r)))"
  note s = mgu_vector [OF assms(1,2), where eps = eps, folded v_def]
  have "make_good_unitary D eps r = Inr v"
    unfolding v_def by (rule mgu_success [OF assms])
  moreover have "length (dft (map of_real v)) = nat D" by (simp add: s(5))
  moreover have "list_all (\<lambda>z. \<bar>cmod z - 1\<bar> \<le> 1 / 10 ^ 5) (dft (map of_real v))"
    using s(3) by (simp only: s(4)) (simp add: list_all_iff)
  ultimately show ?thesis using s(5) by blast
qed

theorem make_good_unitary_unit_spectrum_witness:
  "rng_ok (const_rng (1 / 2)) \<and>
   (\<exists>v. make_good_unitary 8 (1 / 1000) (const_rng (1 / 2)) = Inr v \<and> length v = 8 \<and>
        length (dft (map of_real v)) = 8 \<and>
        list_all (\<lambda>z. \<bar>cmod z - 1\<bar> \<le> 1 / 10 ^ 5) (dft (map of_real v)))"
proof -
  have ok: "rng_ok (const_rng (1 / 2))" by (simp add: rng_ok_const)
  show ?thesis using ok make_good_unitary_unit_spectrum [OF ok, of 8 "1 / 1000"] by simp
qed

end
